theory Spec2Isabelle
  imports Main "HOL-Library.AList"
begin

section \<open>The table planner of ODIS.py\<close>

text \<open>
  The class \<open>TablePlanner\<close> keeps five dictionaries and a counter.  Python dictionaries
  keep their keys in insertion order and the planner iterates over them, so each
  dictionary is an association list: \<open>map_of\<close> is the lookup, \<open>AList.update\<close> is
  \<open>d[k] = v\<close> (the value is replaced in place, a new key goes to the end) and
  \<open>AList.delete\<close> is \<open>del d[k]\<close>.  Sizes, capacities and group identifiers are Python
  integers.
\<close>

subsection \<open>Data\<close>

record table_info =
  capacity :: int
  occupied :: bool
  combined :: bool
  component_tables :: "string list option"
  room :: string

record group_data =
  size_g :: int
  name :: string

record seated_data = group_data +
  table :: string

record planner =
  tables :: "(string \<times> table_info) list"
  assignments :: "(string \<times> int list) list"
  groups :: "(int \<times> group_data) list"
  seated_groups :: "(int \<times> seated_data) list"
  next_group_id :: int
  combined_tables :: "(string \<times> string list) list"

text \<open>The state built by \<open>__init__\<close> (the room catalogue is a constant and is not
  consulted by any operation below).\<close>

definition init :: planner where
  "init = \<lparr>tables = [], assignments = [], groups = [], seated_groups = [],
           next_group_id = 1, combined_tables = []\<rparr>"

subsection \<open>Dictionary helpers\<close>

definition has_key :: "'k \<Rightarrow> ('k \<times> 'v) list \<Rightarrow> bool" where
  "has_key k d = (map_of d k \<noteq> None)"

text \<open>\<open>assignments\<close> is a \<open>defaultdict(list)\<close>: reading a missing key stores an empty
  list under it.  \<open>touch\<close> is the dictionary after such a read and \<open>listed\<close> the value
  read.\<close>

definition touch :: "string \<Rightarrow> (string \<times> int list) list \<Rightarrow> (string \<times> int list) list" where
  "touch k d = (if has_key k d then d else AList.update k [] d)"

definition listed :: "(string \<times> int list) list \<Rightarrow> string \<Rightarrow> int list" where
  "listed d k = (case map_of d k of None \<Rightarrow> [] | Some gs \<Rightarrow> gs)"

text \<open>\<open>sum(self.seated_groups[gid]['size'] for gid in self.assignments[table_id]
  if gid in self.seated_groups)\<close>\<close>

definition current_occupancy :: "planner \<Rightarrow> string \<Rightarrow> int" where
  "current_occupancy s table_id =
     sum_list (map (\<lambda>gid. case map_of (seated_groups s) gid of
                             None \<Rightarrow> 0 | Some sg \<Rightarrow> size_g sg)
                   (listed (assignments s) table_id))"

subsection \<open>Tables and groups\<close>

definition add_table :: "planner \<Rightarrow> string \<Rightarrow> int \<Rightarrow> string \<Rightarrow> planner" where
  "add_table s table_id cap rm =
     s\<lparr>tables := AList.update table_id
          \<lparr>capacity = cap, occupied = False, combined = False,
           component_tables = None, room = rm\<rparr> (tables s)\<rparr>"

text \<open>The body of the loop of \<open>remove_table\<close>: a listed group that is seated goes back
  to the waiting dictionary with its size and name.\<close>

definition requeue :: "int \<Rightarrow> planner \<Rightarrow> planner" where
  "requeue group_id s =
     (case map_of (seated_groups s) group_id of
        None \<Rightarrow> s
      | Some sg \<Rightarrow>
          s\<lparr>groups := AList.update group_id \<lparr>size_g = size_g sg, name = name sg\<rparr> (groups s),
            seated_groups := AList.delete group_id (seated_groups s)\<rparr>)"

definition remove_table :: "planner \<Rightarrow> string \<Rightarrow> planner" where
  "remove_table s table_id =
     (if has_key table_id (tables s) then
        (let s1 = s\<lparr>tables := AList.delete table_id (tables s)\<rparr> in
         case map_of (assignments s1) table_id of
           None \<Rightarrow> s1
         | Some gs \<Rightarrow>
             (let s2 = fold requeue gs s1
              in s2\<lparr>assignments := AList.delete table_id (assignments s2)\<rparr>))
      else s)"

text \<open>Decimal rendering of the identifier in the default name \<open>f"Group {group_id}"\<close>.\<close>

fun str_nat :: "nat \<Rightarrow> string" where
  "str_nat n = (if n < 10 then [''0123456789'' ! n]
                else str_nat (n div 10) @ [''0123456789'' ! (n mod 10)])"

declare str_nat.simps [simp del]

definition str_int :: "int \<Rightarrow> string" where
  "str_int i = (if i < 0 then CHR ''-'' # str_nat (nat (- i)) else str_nat (nat i))"

text \<open>\<open>group_name\<close> is optional; \<open>not group_name\<close> holds for \<open>None\<close> and for the empty
  string.\<close>

definition add_guests :: "planner \<Rightarrow> int \<Rightarrow> string option \<Rightarrow> int \<times> planner" where
  "add_guests s group_size group_name =
     (let group_id = next_group_id s;
          nm = (case group_name of
                  None \<Rightarrow> ''Group '' @ str_int group_id
                | Some n \<Rightarrow> if n = [] then ''Group '' @ str_int group_id else n)
      in (group_id,
          s\<lparr>next_group_id := next_group_id s + 1,
            groups := AList.update group_id \<lparr>size_g = group_size, name = nm\<rparr> (groups s)\<rparr>))"

definition rename_group :: "planner \<Rightarrow> int \<Rightarrow> string \<Rightarrow> bool \<times> planner" where
  "rename_group s group_id new_name =
     (if has_key group_id (groups s) then
        (True, s\<lparr>groups := AList.map_entry group_id (\<lambda>g. g\<lparr>name := new_name\<rparr>) (groups s)\<rparr>)
      else if has_key group_id (seated_groups s) then
        (True, s\<lparr>seated_groups :=
                   AList.map_entry group_id (\<lambda>g. g\<lparr>name := new_name\<rparr>) (seated_groups s)\<rparr>)
      else (False, s))"

subsection \<open>Seating and release\<close>

text \<open>The statements shared by \<open>seat_guests\<close> (lines 89 to 99) and \<open>optimize_seating\<close>
  (lines 220 to 232): append to the table's list, set the flag, move the group.\<close>

definition do_seat :: "planner \<Rightarrow> int \<Rightarrow> int \<Rightarrow> string \<Rightarrow> string \<Rightarrow> planner" where
  "do_seat s group_id group_size group_name table_id =
     s\<lparr>assignments :=
         AList.update table_id (listed (assignments s) table_id @ [group_id]) (assignments s),
       tables := AList.map_entry table_id (\<lambda>t. t\<lparr>occupied := True\<rparr>) (tables s),
       seated_groups :=
         AList.update group_id \<lparr>size_g = group_size, name = group_name, table = table_id\<rparr>
           (seated_groups s),
       groups := AList.delete group_id (groups s)\<rparr>"

text \<open>\<open>seat_guests\<close> returns the pair \<open>(success, message)\<close>; the planner after the call
  is returned with it, also when the call is rejected.\<close>

definition seat_guests :: "planner \<Rightarrow> int \<Rightarrow> string \<Rightarrow> (bool \<times> string) \<times> planner" where
  "seat_guests s group_id table_id =
     (case map_of (tables s) table_id of
        None \<Rightarrow> ((False, ''Table does not exist''), s)
      | Some table_info \<Rightarrow>
     (case map_of (groups s) group_id of
        None \<Rightarrow> ((False, ''Group does not exist''), s)
      | Some g \<Rightarrow>
          (let group_size = size_g g;
               group_name = name g;
               table_capacity =
                 (if combined table_info \<and> CHR ''+'' \<in> set table_id
                  then capacity table_info else capacity table_info)
           in if group_size > table_capacity
              then ((False, ''Group too large for table''), s)
              else if occupied table_info then
                (let s1 = s\<lparr>assignments := touch table_id (assignments s)\<rparr>
                 in if current_occupancy s1 table_id + group_size > table_capacity
                    then ((False, ''Not enough space at table''), s1)
                    else ((True, ''Group seated successfully''),
                          do_seat s1 group_id group_size group_name table_id))
              else ((True, ''Group seated successfully''),
                    do_seat s group_id group_size group_name table_id))))"

text \<open>The loop over the component tables when a combined table is broken apart.\<close>

definition restore_component :: "string \<Rightarrow> (string \<times> table_info) list \<Rightarrow> (string \<times> table_info) list" where
  "restore_component comp_table ts =
     AList.map_entry comp_table (\<lambda>t. t\<lparr>occupied := False, combined := False\<rparr>) ts"

text \<open>
  \<open>mark_group_left\<close> returns \<open>(success, message)\<close>, or raises \<open>KeyError\<close> at line 114
  when the group's table has an assignment list but no record; the result is then
  \<open>None\<close>, with the planner as the exception leaves it.
\<close>

definition mark_group_left :: "planner \<Rightarrow> int \<Rightarrow> (bool \<times> string) option \<times> planner" where
  "mark_group_left s group_id =
     (case map_of (seated_groups s) group_id of
        None \<Rightarrow> (Some (False, ''Group not found or not seated''), s)
      | Some sg \<Rightarrow>
          (let table_id = table sg;
               leave = (\<lambda>s'. (Some (True, ''Group marked as left''),
                             s'\<lparr>seated_groups := AList.delete group_id (seated_groups s')\<rparr>))
           in if has_key table_id (assignments s)
                 \<and> group_id \<in> set (listed (assignments s) table_id)
              then
                (let rest = remove1 group_id (listed (assignments s) table_id);
                     s1 = s\<lparr>assignments := AList.update table_id rest (assignments s)\<rparr>
                 in if rest = [] then
                      (if \<not> has_key table_id (tables s1) then (None, s1)
                       else
                         (let s2 = s1\<lparr>tables := AList.map_entry table_id
                                        (\<lambda>t. t\<lparr>occupied := False\<rparr>) (tables s1)\<rparr>
                          in case (if CHR ''+'' \<in> set table_id
                                   then map_of (combined_tables s2) table_id else None) of
                               Some comps \<Rightarrow>
                                 leave (s2\<lparr>tables := AList.delete table_id
                                             (fold restore_component comps (tables s2)),
                                           combined_tables :=
                                             AList.delete table_id (combined_tables s2),
                                           assignments :=
                                             AList.delete table_id (assignments s2)\<rparr>)
                             | None \<Rightarrow> leave s2))
                    else leave s1)
              else leave s))"

subsection \<open>Finding a table\<close>

text \<open>The test that makes both loops of \<open>find_best_table_for_group\<close> \<open>continue\<close>:
  combined identifiers, components of a combination and occupied tables are passed
  over.\<close>

definition skipped :: "string \<Rightarrow> table_info \<Rightarrow> bool" where
  "skipped table_id ti = (CHR ''+'' \<in> set table_id \<or> combined ti \<or> occupied ti)"

text \<open>First loop: the first table, in dictionary order, that is not skipped and is
  large enough.\<close>

fun single_table :: "int \<Rightarrow> (string \<times> table_info) list \<Rightarrow> string option" where
  "single_table group_size [] = None"
| "single_table group_size ((table_id, ti) # rest) =
     (if skipped table_id ti then single_table group_size rest
      else if group_size \<le> capacity ti then Some table_id
      else single_table group_size rest)"

text \<open>Second loop: the empty tables of each room, as pairs of identifier and
  capacity; rooms in the order of their first empty table.\<close>

definition entries :: "(string \<times> (string \<times> int) list) list \<Rightarrow> string \<Rightarrow> (string \<times> int) list" where
  "entries d rm = (case map_of d rm of None \<Rightarrow> [] | Some xs \<Rightarrow> xs)"

fun empty_tables_by_room ::
  "(string \<times> table_info) list \<Rightarrow> (string \<times> (string \<times> int) list) list
     \<Rightarrow> (string \<times> (string \<times> int) list) list" where
  "empty_tables_by_room [] acc = acc"
| "empty_tables_by_room ((table_id, ti) # rest) acc =
     (if skipped table_id ti then empty_tables_by_room rest acc
      else empty_tables_by_room rest
             (AList.update (room ti) (entries acc (room ti) @ [(table_id, capacity ti)]) acc))"

text \<open>The loop over \<open>j\<close>: extend the combination until it is large enough.\<close>

fun accumulate ::
  "int \<Rightarrow> (string \<times> int) list \<Rightarrow> int \<Rightarrow> string list \<Rightarrow> (int \<times> string list) option" where
  "accumulate group_size [] current_sum chosen = None"
| "accumulate group_size ((table_id, cap) # rest) current_sum chosen =
     (if current_sum + cap \<ge> group_size
      then Some (current_sum + cap, chosen @ [table_id])
      else accumulate group_size rest (current_sum + cap) (chosen @ [table_id]))"

text \<open>The loop over \<open>i\<close>: every start index in turn.\<close>

fun try_starts :: "int \<Rightarrow> (string \<times> int) list \<Rightarrow> (int \<times> string list) option" where
  "try_starts group_size [] = None"
| "try_starts group_size (x # xs) =
     (case accumulate group_size (x # xs) 0 [] of
        Some r \<Rightarrow> Some r
      | None \<Rightarrow> try_starts group_size xs)"

text \<open>The loop over the rooms.  \<open>sort(key=..., reverse=True)\<close> is stable, as
  \<open>sort_key\<close> is, so tables of equal capacity keep their dictionary order.\<close>

fun try_rooms ::
  "int \<Rightarrow> (string \<times> (string \<times> int) list) list \<Rightarrow> (string \<times> int \<times> string list) option" where
  "try_rooms group_size [] = None"
| "try_rooms group_size ((rm, empty_tables) # rest) =
     (case try_starts group_size (sort_key (\<lambda>x. - snd x) empty_tables) of
        Some (current_sum, chosen) \<Rightarrow> Some (rm, current_sum, chosen)
      | None \<Rightarrow> try_rooms group_size rest)"

text \<open>\<open>"+".join(combined_tables)\<close>\<close>

fun join_plus :: "string list \<Rightarrow> string" where
  "join_plus [] = []"
| "join_plus [x] = x"
| "join_plus (x # y # ys) = x @ ''+'' @ join_plus (y # ys)"

definition mark_combined :: "string \<Rightarrow> (string \<times> table_info) list \<Rightarrow> (string \<times> table_info) list" where
  "mark_combined table_id ts =
     AList.map_entry table_id (\<lambda>t. t\<lparr>combined := True, occupied := True\<rparr>) ts"

text \<open>The result is the triple \<open>(table_id, is_combined, combined_tables)\<close> of the
  source, \<open>None\<close> as \<open>None\<close>, together with the planner after the call.  The parameter
  \<open>group_id\<close> is not used by the source either.\<close>

definition find_best_table_for_group ::
  "planner \<Rightarrow> int \<Rightarrow> int \<Rightarrow> (string option \<times> bool \<times> string list option) \<times> planner" where
  "find_best_table_for_group s group_size group_id =
     (case single_table group_size (tables s) of
        Some table_id \<Rightarrow> ((Some table_id, False, None), s)
      | None \<Rightarrow>
          (case try_rooms group_size (empty_tables_by_room (tables s) []) of
             None \<Rightarrow> ((None, False, None), s)
           | Some (rm, current_sum, chosen) \<Rightarrow>
               (let combined_id = join_plus chosen
                in ((Some combined_id, True, Some chosen),
                    s\<lparr>tables := AList.update combined_id
                         \<lparr>capacity = current_sum, occupied = True, combined = True,
                          component_tables = Some chosen, room = rm\<rparr>
                         (fold mark_combined chosen (tables s)),
                      combined_tables := AList.update combined_id chosen (combined_tables s),
                      assignments := AList.update combined_id [] (assignments s)\<rparr>))))"

subsection \<open>The batch optimizer\<close>

text \<open>
  \<open>optimize_seating\<close> has no \<open>return\<close> statement.  What it gives out, besides the new
  planner, is the line it appends to the message log of the session for a group seated
  at a combined table; the line interpolates the component list, the room of the table
  and the group's name, and a \<open>message\<close> holds these three values.
\<close>

record message =
  msg_tables :: "string list option"
  msg_room :: string
  msg_group :: string

definition room_of :: "planner \<Rightarrow> string \<Rightarrow> string" where
  "room_of s table_id = (case map_of (tables s) table_id of None \<Rightarrow> [] | Some t \<Rightarrow> room t)"

text \<open>The body of the loop over the snapshot of the waiting groups.  \<open>if table_id\<close>
  is false for \<open>None\<close> and for the empty string.\<close>

fun optimize_group :: "int \<times> group_data \<Rightarrow> planner \<times> message list \<Rightarrow> planner \<times> message list" where
  "optimize_group (group_id, gd) (s, log) =
     (if \<not> has_key group_id (groups s) then (s, log)
      else
        (case find_best_table_for_group s (size_g gd) group_id of
           ((None, is_combined, chosen), s1) \<Rightarrow> (s1, log)
         | ((Some table_id, is_combined, chosen), s1) \<Rightarrow>
             if table_id = [] then (s1, log)
             else
               (let s2 = do_seat s1 group_id (size_g gd) (name gd) table_id
                in (s2, if is_combined
                        then log @ [\<lparr>msg_tables = chosen, msg_room = room_of s2 table_id,
                                     msg_group = name gd\<rparr>]
                        else log))))"

definition optimize_seating :: "planner \<Rightarrow> planner \<times> message list" where
  "optimize_seating s =
     fold optimize_group (sort_key (\<lambda>x. - size_g (snd x)) (groups s)) (s, [])"

subsection \<open>Commands\<close>

text \<open>A caller drives the planner by a sequence of calls; \<open>exec\<close> is the planner after
  one call and \<open>run\<close> the planner after a sequence of calls on a new planner.\<close>

datatype command =
    AddTable string int string
  | RemoveTable string
  | AddGuests int "string option"
  | SeatGuests int string
  | MarkGroupLeft int
  | FindBestTable int int
  | OptimizeSeating
  | RenameGroup int string

fun exec :: "command \<Rightarrow> planner \<Rightarrow> planner" where
  "exec (AddTable table_id cap rm) s = add_table s table_id cap rm"
| "exec (RemoveTable table_id) s = remove_table s table_id"
| "exec (AddGuests group_size group_name) s = snd (add_guests s group_size group_name)"
| "exec (SeatGuests group_id table_id) s = snd (seat_guests s group_id table_id)"
| "exec (MarkGroupLeft group_id) s = snd (mark_group_left s group_id)"
| "exec (FindBestTable group_size group_id) s =
     snd (find_best_table_for_group s group_size group_id)"
| "exec OptimizeSeating s = fst (optimize_seating s)"
| "exec (RenameGroup group_id new_name) s = snd (rename_group s group_id new_name)"

definition run :: "command list \<Rightarrow> planner" where
  "run cs = fold exec cs init"

subsection \<open>The occupied flag and the assignment list\<close>

text \<open>Two properties of the tables that are not flagged combined: a table flagged
  occupied has a group listed under it, and a table with a group listed under it is
  flagged occupied.\<close>

definition occupied_listed :: "planner \<Rightarrow> bool" where
  "occupied_listed s =
     (\<forall>t \<in> set (map fst (tables s)).
        case map_of (tables s) t of
          None \<Rightarrow> True
        | Some ti \<Rightarrow> combined ti \<or> listed (assignments s) t \<noteq> [] \<or> \<not> occupied ti)"

definition listed_occupied :: "planner \<Rightarrow> bool" where
  "listed_occupied s =
     (\<forall>t \<in> set (map fst (tables s)).
        case map_of (tables s) t of
          None \<Rightarrow> True
        | Some ti \<Rightarrow> combined ti \<or> occupied ti \<or> listed (assignments s) t = [])"

text \<open>
  The two calls that can clear or leave clear the flag of a table with a group listed
  under it: \<open>add_table\<close> on an identifier with a group listed under it, and
  \<open>mark_group_left\<close> when it breaks a combination (the group is the one group listed
  under a registered identifier with a plus sign that the combination dictionary
  records) and a group is listed under a registered component.  A call is admissible
  when it is not one of these.
\<close>

fun admissible :: "planner \<Rightarrow> command \<Rightarrow> bool" where
  "admissible s (AddTable table_id cap rm) = (listed (assignments s) table_id = [])"
| "admissible s (MarkGroupLeft group_id) =
     (case map_of (seated_groups s) group_id of
        None \<Rightarrow> True
      | Some sg \<Rightarrow>
          (case map_of (combined_tables s) (table sg) of
             None \<Rightarrow> True
           | Some comps \<Rightarrow>
               CHR ''+'' \<notin> set (table sg) \<or>
               listed (assignments s) (table sg) \<noteq> [group_id] \<or>
               \<not> has_key (table sg) (tables s) \<or>
               (\<forall>c \<in> set comps.
                  c = table sg \<or> \<not> has_key c (tables s) \<or> listed (assignments s) c = [])))"
| "admissible s _ = True"

text \<open>A sequence of calls, each admissible in the planner it is made on.\<close>

fun admissible_from :: "planner \<Rightarrow> command list \<Rightarrow> bool" where
  "admissible_from s [] = True"
| "admissible_from s (c # cs) = (admissible s c \<and> admissible_from (exec c s) cs)"

subsection \<open>Groups seated at a combined table\<close>

text \<open>The seated record of the group names a joined identifier.\<close>

definition seated_at_combination :: "planner \<Rightarrow> int \<Rightarrow> bool" where
  "seated_at_combination s group_id =
     (case map_of (seated_groups s) group_id of
        None \<Rightarrow> False
      | Some sg \<Rightarrow> CHR ''+'' \<in> set (table sg))"

text \<open>The group has left the waiting dictionary and is seated at a joined identifier.\<close>

definition moved_to_combination :: "planner \<Rightarrow> int \<times> group_data \<Rightarrow> bool" where
  "moved_to_combination s x =
     (\<not> has_key (fst x) (groups s) \<and> seated_at_combination s (fst x))"

text \<open>The table of a seated group, and the message that tells of a group seated at a
  combined table, read from the planner: the components recorded for the group's table,
  the room of that table, and the name of the group's waiting record.\<close>

definition table_of :: "planner \<Rightarrow> int \<Rightarrow> string" where
  "table_of s group_id =
     (case map_of (seated_groups s) group_id of None \<Rightarrow> [] | Some sg \<Rightarrow> table sg)"

definition report :: "planner \<Rightarrow> int \<times> group_data \<Rightarrow> message" where
  "report s x =
     \<lparr>msg_tables = map_of (combined_tables s) (table_of s (fst x)),
      msg_room = room_of s (table_of s (fst x)),
      msg_group = name (snd x)\<rparr>"

text \<open>The table of the group is a recorded combination of at least two components,
  each one registered, flagged combined and without a plus sign in its identifier.\<close>

definition recorded :: "planner \<Rightarrow> int \<Rightarrow> bool" where
  "recorded s group_id =
     (case map_of (combined_tables s) (table_of s group_id) of
        None \<Rightarrow> False
      | Some comps \<Rightarrow>
          table_of s group_id = join_plus comps \<and> 2 \<le> length comps \<and>
          (\<forall>t \<in> set comps. CHR ''+'' \<notin> set t \<and>
             (case map_of (tables s) t of None \<Rightarrow> False | Some ti \<Rightarrow> combined ti)))"

section \<open>Properties\<close>

subsection \<open>Facts about the dictionary helpers\<close>

lemma has_key_iff: "has_key k d \<longleftrightarrow> k \<in> fst ` set d"
  by (simp add: has_key_def map_of_eq_None_iff)

lemma listed_touch [simp]: "listed (touch k d) k' = listed d k'"
  by (simp add: listed_def touch_def has_key_def AList.update_conv')

lemma listed_update: "listed (AList.update k v d) k' = (if k' = k then v else listed d k')"
  by (simp add: listed_def AList.update_conv')

lemma listed_delete: "listed (AList.delete k d) k' = (if k' = k then [] else listed d k')"
  by (simp add: listed_def AList.delete_conv')

lemma listed_no_key: "\<not> has_key k d \<Longrightarrow> listed d k = []"
  by (simp add: listed_def has_key_def)

lemma current_occupancy_touch [simp]:
  "current_occupancy (s\<lparr>assignments := touch k (assignments s)\<rparr>) t = current_occupancy s t"
  by (simp add: current_occupancy_def)

lemma current_occupancy_no_key: "\<not> has_key t (assignments s) \<Longrightarrow> current_occupancy s t = 0"
  by (simp add: current_occupancy_def listed_no_key)

lemma do_seat_touch [simp]:
  "do_seat (s\<lparr>assignments := touch t (assignments s)\<rparr>) g n nm t = do_seat s g n nm t"
  by (auto simp: do_seat_def touch_def listed_update) (simp add: listed_def has_key_def)

lemma has_key_map_entry [simp]: "has_key k (AList.map_entry k' f d) = has_key k d"
  by (simp add: has_key_iff AList.dom_map_entry)

lemma has_key_update: "has_key k (AList.update k' v d) \<longleftrightarrow> k = k' \<or> has_key k d"
  by (auto simp: has_key_def AList.update_conv')

lemma has_key_delete: "has_key k (AList.delete k' d) \<longleftrightarrow> k \<noteq> k' \<and> has_key k d"
  by (auto simp: has_key_def AList.delete_conv')

lemma update_fresh: "\<not> has_key k d \<Longrightarrow> AList.update k v d = d @ [(k, v)]"
  by (induction d) (auto simp: has_key_def split: if_splits)

lemma update_present_keys: "has_key k d \<Longrightarrow> map fst (AList.update k v d) = map fst d"
  by (simp add: AList.update_keys has_key_iff)

lemma do_seat_fields:
  "groups (do_seat s g n nm t) = AList.delete g (groups s)"
  "seated_groups (do_seat s g n nm t) =
     AList.update g \<lparr>size_g = n, name = nm, table = t\<rparr> (seated_groups s)"
  "tables (do_seat s g n nm t) = AList.map_entry t (\<lambda>t. t\<lparr>occupied := True\<rparr>) (tables s)"
  "combined_tables (do_seat s g n nm t) = combined_tables s"
  "assignments (do_seat s g n nm t) =
     AList.update t (listed (assignments s) t @ [g]) (assignments s)"
  "next_group_id (do_seat s g n nm t) = next_group_id s"
  by (simp_all add: do_seat_def)

text \<open>Requeueing groups touches neither the tables nor the lists.\<close>

lemma requeue_frame [simp]:
  "tables (requeue g s) = tables s" "assignments (requeue g s) = assignments s"
  "combined_tables (requeue g s) = combined_tables s"
  by (simp_all add: requeue_def split: option.splits)

lemma fold_requeue_frame [simp]:
  "tables (fold requeue gs s) = tables s" "assignments (fold requeue gs s) = assignments s"
  "combined_tables (fold requeue gs s) = combined_tables s"
  by (induction gs arbitrary: s) simp_all

text \<open>The loops that flag the components of a combination, and clear the flags again,
  change the records of the components and of no other table.\<close>

lemma map_of_mark_combined:
  "map_of (mark_combined c ts) t =
     (if t = c then map_option (\<lambda>ti. ti\<lparr>combined := True, occupied := True\<rparr>) (map_of ts t)
      else map_of ts t)"
  by (auto simp: mark_combined_def AList.map_of_map_entry split: option.splits)

lemma map_of_fold_mark:
  "map_of (fold mark_combined comps ts) t =
     (if t \<in> set comps
      then map_option (\<lambda>ti. ti\<lparr>combined := True, occupied := True\<rparr>) (map_of ts t)
      else map_of ts t)"
proof (induction comps arbitrary: ts)
  case Nil
  then show ?case by simp
next
  case (Cons c comps)
  have "map_of (fold mark_combined (c # comps) ts) t =
        map_of (fold mark_combined comps (mark_combined c ts)) t"
    by simp
  also have "\<dots> = (if t \<in> set comps
      then map_option (\<lambda>ti. ti\<lparr>combined := True, occupied := True\<rparr>)
             (map_of (mark_combined c ts) t)
      else map_of (mark_combined c ts) t)"
    by (rule Cons.IH)
  finally show ?case
    by (cases "map_of ts t") (auto simp: map_of_mark_combined)
qed

lemma has_key_mark_combined [simp]: "has_key t (mark_combined c ts) = has_key t ts"
  by (simp add: mark_combined_def)

lemma has_key_fold_mark [simp]: "has_key t (fold mark_combined comps ts) = has_key t ts"
  by (induction comps arbitrary: ts) simp_all

lemma map_of_restore_component:
  "map_of (restore_component c ts) t =
     (if t = c then map_option (\<lambda>ti. ti\<lparr>occupied := False, combined := False\<rparr>) (map_of ts t)
      else map_of ts t)"
  by (auto simp: restore_component_def AList.map_of_map_entry split: option.splits)

lemma map_of_fold_restore:
  "map_of (fold restore_component comps ts) t =
     (if t \<in> set comps
      then map_option (\<lambda>ti. ti\<lparr>occupied := False, combined := False\<rparr>) (map_of ts t)
      else map_of ts t)"
proof (induction comps arbitrary: ts)
  case Nil
  then show ?case by simp
next
  case (Cons c comps)
  have "map_of (fold restore_component (c # comps) ts) t =
        map_of (fold restore_component comps (restore_component c ts)) t"
    by simp
  also have "\<dots> = (if t \<in> set comps
      then map_option (\<lambda>ti. ti\<lparr>occupied := False, combined := False\<rparr>)
             (map_of (restore_component c ts) t)
      else map_of (restore_component c ts) t)"
    by (rule Cons.IH)
  finally show ?case
    by (cases "map_of ts t") (auto simp: map_of_restore_component)
qed

subsection \<open>Seating a group at a table\<close>

text \<open>
  Claim C3.  \<open>seat_guests\<close> makes its checks in the order of the source, and each
  message is characterised among the calls that reach its check: the call is rejected
  with "Table does not exist" exactly when the table lookup fails, with "Group does not
  exist" exactly when the table is found and the waiting-group lookup fails; when both
  are found, with "Group too large for table" exactly when the size exceeds the
  capacity, and with "Not enough space at table" exactly when the size fits the
  capacity, the table is flagged occupied and capacity minus current occupancy is
  below the size; so it is rejected with one of these two exactly when the size
  exceeds the capacity or the table is occupied with too little room left.  Otherwise
  it succeeds, and then the group is appended to the table's assignment list, the
  table is flagged occupied, and the group's record has left the waiting dictionary
  and stands in the seated one with the table identifier.
\<close>

theorem seat_guests_spec:
  "seat_guests s group_id table_id = (res, s') \<Longrightarrow>
   (res = (False, ''Table does not exist'') \<longleftrightarrow> map_of (tables s) table_id = None) \<and>
   (res = (False, ''Group does not exist'') \<longleftrightarrow>
      map_of (tables s) table_id \<noteq> None \<and> map_of (groups s) group_id = None) \<and>
   (\<forall>ti g. map_of (tables s) table_id = Some ti \<and> map_of (groups s) group_id = Some g \<longrightarrow>
      (res = (False, ''Group too large for table'') \<longleftrightarrow> size_g g > capacity ti) \<and>
      (res = (False, ''Not enough space at table'') \<longleftrightarrow>
         \<not> size_g g > capacity ti \<and> occupied ti \<and>
         capacity ti - current_occupancy s table_id < size_g g) \<and>
      (res = (False, ''Group too large for table'') \<or>
       res = (False, ''Not enough space at table'') \<longleftrightarrow>
         size_g g > capacity ti \<or>
         occupied ti \<and> capacity ti - current_occupancy s table_id < size_g g) \<and>
      (res = (True, ''Group seated successfully'') \<longleftrightarrow>
         \<not> size_g g > capacity ti \<and>
         \<not> (occupied ti \<and> capacity ti - current_occupancy s table_id < size_g g)) \<and>
      (fst res \<longrightarrow>
         listed (assignments s') table_id = listed (assignments s) table_id @ [group_id] \<and>
         map_of (tables s') table_id = Some (ti\<lparr>occupied := True\<rparr>) \<and>
         map_of (groups s') group_id = None \<and>
         map_of (seated_groups s') group_id =
           Some \<lparr>size_g = size_g g, name = name g, table = table_id\<rparr>))"
  by (auto simp: seat_guests_def Let_def do_seat_def listed_update AList.update_conv'
      AList.delete_conv' AList.map_of_map_entry split: option.splits if_splits)

theorem seat_guests_spec_witness:
  "seat_guests (run [AddTable ''T2'' 4 ''GREENROOM'', AddGuests 2 None, AddGuests 2 None,
                     SeatGuests 1 ''T2'']) 2 ''T2''
     = ((True, ''Group seated successfully''),
        run [AddTable ''T2'' 4 ''GREENROOM'', AddGuests 2 None, AddGuests 2 None,
             SeatGuests 1 ''T2'', SeatGuests 2 ''T2'']) \<and>
   listed (assignments (run [AddTable ''T2'' 4 ''GREENROOM'', AddGuests 2 None, AddGuests 2 None,
             SeatGuests 1 ''T2'', SeatGuests 2 ''T2''])) ''T2'' = [1, 2] \<and>
   map_of (groups (run [AddTable ''T2'' 4 ''GREENROOM'', AddGuests 2 None, AddGuests 2 None,
             SeatGuests 1 ''T2'', SeatGuests 2 ''T2''])) 2 = None"
proof -
  let ?s = "run [AddTable ''T2'' 4 ''GREENROOM'', AddGuests 2 None, AddGuests 2 None,
                 SeatGuests 1 ''T2'']"
  let ?s' = "run [AddTable ''T2'' 4 ''GREENROOM'', AddGuests 2 None, AddGuests 2 None,
                  SeatGuests 1 ''T2'', SeatGuests 2 ''T2'']"
  have call: "seat_guests ?s 2 ''T2'' = ((True, ''Group seated successfully''), ?s')"
    by code_simp
  have tab: "map_of (tables ?s) ''T2'' =
      Some \<lparr>capacity = 4, occupied = True, combined = False, component_tables = None,
            room = ''GREENROOM''\<rparr>"
    by code_simp
  have grp: "map_of (groups ?s) 2 = Some \<lparr>size_g = 2, name = ''Group 2''\<rparr>"
    by code_simp
  have old: "listed (assignments ?s) ''T2'' = [1]"
    by code_simp
  from seat_guests_spec [OF call] tab grp
  have "listed (assignments ?s') ''T2'' = listed (assignments ?s) ''T2'' @ [2] \<and>
        map_of (groups ?s') 2 = None"
    by simp
  with call old show ?thesis by simp
qed

subsection \<open>Rejected calls\<close>

text \<open>A rejected \<open>seat_guests\<close> has not stored a list by reading the default
  dictionary: with no list under the table the occupancy is zero, and a group that
  fits the capacity is not rejected for space.\<close>

lemma seat_guests_rejected:
  assumes "seat_guests s group_id table_id = ((False, m), s')"
  shows "s' = s"
proof (cases "has_key table_id (assignments s)")
  case True
  then have "s\<lparr>assignments := touch table_id (assignments s)\<rparr> = s"
    by (simp add: touch_def)
  with assms show ?thesis
    by (auto simp: seat_guests_def Let_def split: option.splits if_splits)
next
  case False
  then have "current_occupancy s table_id = 0"
    by (rule current_occupancy_no_key)
  with assms show ?thesis
    by (auto simp: seat_guests_def Let_def split: option.splits if_splits)
qed

lemma mark_group_left_rejected:
  assumes "mark_group_left s group_id = (Some (False, m), s')"
  shows "s' = s"
  using assms
  by (auto simp: mark_group_left_def Let_def split: option.splits if_splits)

lemma rename_group_rejected:
  assumes "rename_group s group_id new_name = (False, s')"
  shows "s' = s"
  using assms by (auto simp: rename_group_def split: if_splits)

lemma remove_table_absent: "\<not> has_key table_id (tables s) \<Longrightarrow> remove_table s table_id = s"
  by (simp add: remove_table_def)

text \<open>
  Claim C8.  A call that returns a failure leaves the planner as it was: \<open>seat_guests\<close>
  returning \<open>False\<close> with any of its four messages, \<open>mark_group_left\<close> returning
  \<open>False\<close>, \<open>rename_group\<close> returning \<open>False\<close>.  \<open>remove_table\<close> returns nothing; on an
  identifier that is not registered it changes nothing.
\<close>

theorem rejected_call_keeps_state:
  "(seat_guests s group_id table_id = ((False, m), s') \<longrightarrow> s' = s) \<and>
   (mark_group_left s group_id = (Some (False, m), s') \<longrightarrow> s' = s) \<and>
   (rename_group s group_id new_name = (False, s') \<longrightarrow> s' = s) \<and>
   (\<not> has_key table_id (tables s) \<longrightarrow> remove_table s table_id = s)"
  using seat_guests_rejected mark_group_left_rejected rename_group_rejected remove_table_absent
  by fast

theorem rejected_call_keeps_state_witness:
  "seat_guests (run [AddTable ''T2'' 4 ''GREENROOM'', AddGuests 2 None, AddGuests 3 None,
                     SeatGuests 1 ''T2'']) 2 ''T2''
     = ((False, ''Not enough space at table''),
        run [AddTable ''T2'' 4 ''GREENROOM'', AddGuests 2 None, AddGuests 3 None,
             SeatGuests 1 ''T2'']) \<and>
   mark_group_left (run [AddTable ''T2'' 4 ''GREENROOM'', AddGuests 2 None, AddGuests 3 None,
                     SeatGuests 1 ''T2'']) 2
     = (Some (False, ''Group not found or not seated''),
        run [AddTable ''T2'' 4 ''GREENROOM'', AddGuests 2 None, AddGuests 3 None,
             SeatGuests 1 ''T2'']) \<and>
   rename_group (run [AddTable ''T2'' 4 ''GREENROOM'', AddGuests 2 None, AddGuests 3 None,
                     SeatGuests 1 ''T2'']) 7 ''Smith''
     = (False,
        run [AddTable ''T2'' 4 ''GREENROOM'', AddGuests 2 None, AddGuests 3 None,
             SeatGuests 1 ''T2'']) \<and>
   remove_table (run [AddTable ''T2'' 4 ''GREENROOM'', AddGuests 2 None, AddGuests 3 None,
                     SeatGuests 1 ''T2'']) ''T9''
     = run [AddTable ''T2'' 4 ''GREENROOM'', AddGuests 2 None, AddGuests 3 None,
            SeatGuests 1 ''T2'']"
proof -
  let ?s = "run [AddTable ''T2'' 4 ''GREENROOM'', AddGuests 2 None, AddGuests 3 None,
                 SeatGuests 1 ''T2'']"
  note keeps = rejected_call_keeps_state [where s = ?s]
  have seat: "seat_guests ?s 2 ''T2'' =
      ((False, ''Not enough space at table''), snd (seat_guests ?s 2 ''T2''))"
    by code_simp
  have left: "mark_group_left ?s 2 =
      (Some (False, ''Group not found or not seated''), snd (mark_group_left ?s 2))"
    by code_simp
  have rename: "rename_group ?s 7 ''Smith'' = (False, snd (rename_group ?s 7 ''Smith''))"
    by code_simp
  have absent: "\<not> has_key ''T9'' (tables ?s)"
    by code_simp
  have "snd (seat_guests ?s 2 ''T2'') = ?s"
    using keeps [THEN conjunct1, rule_format, OF seat] .
  moreover have "snd (mark_group_left ?s 2) = ?s"
    using keeps [THEN conjunct2, THEN conjunct1, rule_format, OF left] .
  moreover have "snd (rename_group ?s 7 ''Smith'') = ?s"
    using keeps [THEN conjunct2, THEN conjunct2, THEN conjunct1, rule_format, OF rename] .
  moreover have "remove_table ?s ''T9'' = ?s"
    using keeps [THEN conjunct2, THEN conjunct2, THEN conjunct2, rule_format, OF absent] .
  ultimately show ?thesis
    using seat left rename by simp
qed

subsection \<open>Seating at a component of a combined table\<close>

text \<open>
  Claim C10.  A table that is flagged combined and occupied and has no group in its
  assignment list, as a component of an active combination is, accepts every waiting
  group whose size is at most the component's own capacity: \<open>seat_guests\<close> succeeds,
  and the group is then the one group listed under the component.
\<close>

theorem seat_at_component_succeeds:
  "map_of (tables s) c = Some ti \<Longrightarrow> combined ti \<Longrightarrow> occupied ti \<Longrightarrow>
   listed (assignments s) c = [] \<Longrightarrow>
   map_of (groups s) g = Some gd \<Longrightarrow> size_g gd \<le> capacity ti \<Longrightarrow>
   fst (seat_guests s g c) = (True, ''Group seated successfully'') \<and>
   listed (assignments (snd (seat_guests s g c))) c = [g] \<and>
   map_of (seated_groups (snd (seat_guests s g c))) g =
     Some \<lparr>size_g = size_g gd, name = name gd, table = c\<rparr> \<and>
   map_of (groups (snd (seat_guests s g c))) g = None"
  by (simp add: seat_guests_def Let_def current_occupancy_def do_seat_def listed_update
      AList.update_conv' AList.delete_conv')

theorem seat_at_component_succeeds_witness:
  "map_of (tables (run [AddTable ''A'' 2 ''R'', AddTable ''B'' 2 ''R'', AddTable ''C'' 2 ''R'',
        AddGuests 5 None, OptimizeSeating, AddGuests 2 None])) ''B''
     = Some \<lparr>capacity = 2, occupied = True, combined = True, component_tables = None,
             room = ''R''\<rparr> \<and>
   map_of (combined_tables (run [AddTable ''A'' 2 ''R'', AddTable ''B'' 2 ''R'',
        AddTable ''C'' 2 ''R'', AddGuests 5 None, OptimizeSeating, AddGuests 2 None])) ''A+B+C''
     = Some [''A'', ''B'', ''C''] \<and>
   fst (seat_guests (run [AddTable ''A'' 2 ''R'', AddTable ''B'' 2 ''R'', AddTable ''C'' 2 ''R'',
        AddGuests 5 None, OptimizeSeating, AddGuests 2 None]) 2 ''B'')
     = (True, ''Group seated successfully'') \<and>
   listed (assignments (snd (seat_guests (run [AddTable ''A'' 2 ''R'', AddTable ''B'' 2 ''R'',
        AddTable ''C'' 2 ''R'', AddGuests 5 None, OptimizeSeating, AddGuests 2 None]) 2 ''B'')))
      ''B'' = [2]"
proof -
  let ?s = "run [AddTable ''A'' 2 ''R'', AddTable ''B'' 2 ''R'', AddTable ''C'' 2 ''R'',
        AddGuests 5 None, OptimizeSeating, AddGuests 2 None]"
  let ?ti = "\<lparr>capacity = 2, occupied = True, combined = True, component_tables = None,
             room = ''R''\<rparr>"
  let ?gd = "\<lparr>size_g = 2, name = ''Group 2''\<rparr>"
  have tab: "map_of (tables ?s) ''B'' = Some ?ti"
    by code_simp
  have comb: "map_of (combined_tables ?s) ''A+B+C'' = Some [''A'', ''B'', ''C'']"
    by code_simp
  have lst: "listed (assignments ?s) ''B'' = []"
    by code_simp
  have grp: "map_of (groups ?s) 2 = Some ?gd"
    by code_simp
  have "combined ?ti" "occupied ?ti" "size_g ?gd \<le> capacity ?ti"
    by simp_all
  from seat_at_component_succeeds [OF tab this(1,2) lst grp this(3)] tab comb
  show ?thesis by simp
qed

subsection \<open>Combining three tables of two\<close>

text \<open>Both loops of \<open>find_best_table_for_group\<close> see only the tables that are not
  skipped.\<close>

lemma single_table_filter:
  "single_table n ts = single_table n (filter (\<lambda>(t, ti). \<not> skipped t ti) ts)"
  by (induction n ts rule: single_table.induct) auto

lemma empty_tables_by_room_filter:
  "empty_tables_by_room ts acc =
     empty_tables_by_room (filter (\<lambda>(t, ti). \<not> skipped t ti) ts) acc"
  by (induction ts acc rule: empty_tables_by_room.induct) auto

text \<open>
  Claim C4.  When the tables that the search does not skip (not occupied, not
  combined, no plus sign in the identifier) are exactly three, \<open>a\<close>, \<open>b\<close> and \<open>c\<close> in
  dictionary order, each of capacity 2 and all in one room,
  \<open>find_best_table_for_group\<close> for a group of 5 returns the combined identifier
  \<open>a+b+c\<close> with the components \<open>[a, b, c]\<close>, registers it with capacity 6 in that
  room, flags the three components occupied and combined, and records the
  combination with an empty assignment list.
\<close>

theorem three_tables_of_two_combine:
  assumes free: "filter (\<lambda>(t, ti). \<not> skipped t ti) (tables s) = [(a, ta), (b, tb), (c, tc)]"
    and keys: "distinct (map fst (tables s))"
    and caps: "capacity ta = 2" "capacity tb = 2" "capacity tc = 2"
    and rooms: "room ta = r" "room tb = r" "room tc = r"
  shows "fst (find_best_table_for_group s 5 group_id) =
           (Some (a @ ''+'' @ b @ ''+'' @ c), True, Some [a, b, c]) \<and>
         map_of (tables (snd (find_best_table_for_group s 5 group_id))) (a @ ''+'' @ b @ ''+'' @ c) =
           Some \<lparr>capacity = 6, occupied = True, combined = True,
                 component_tables = Some [a, b, c], room = r\<rparr> \<and>
         map_of (tables (snd (find_best_table_for_group s 5 group_id))) a =
           Some (ta\<lparr>combined := True, occupied := True\<rparr>) \<and>
         map_of (tables (snd (find_best_table_for_group s 5 group_id))) b =
           Some (tb\<lparr>combined := True, occupied := True\<rparr>) \<and>
         map_of (tables (snd (find_best_table_for_group s 5 group_id))) c =
           Some (tc\<lparr>combined := True, occupied := True\<rparr>) \<and>
         map_of (combined_tables (snd (find_best_table_for_group s 5 group_id)))
           (a @ ''+'' @ b @ ''+'' @ c) = Some [a, b, c] \<and>
         map_of (assignments (snd (find_best_table_for_group s 5 group_id)))
           (a @ ''+'' @ b @ ''+'' @ c) = Some []"
proof -
  let ?free = "filter (\<lambda>(t, ti). \<not> skipped t ti) (tables s)"
  have mem: "(a, ta) \<in> set ?free" "(b, tb) \<in> set ?free" "(c, tc) \<in> set ?free"
    by (simp_all add: free)
  then have unskipped: "\<not> skipped a ta" "\<not> skipped b tb" "\<not> skipped c tc"
    and reg: "(a, ta) \<in> set (tables s)" "(b, tb) \<in> set (tables s)" "(c, tc) \<in> set (tables s)"
    by auto
  from reg keys have look: "map_of (tables s) a = Some ta" "map_of (tables s) b = Some tb"
      "map_of (tables s) c = Some tc"
    by simp_all
  from unskipped have noplus: "CHR ''+'' \<notin> set a" "CHR ''+'' \<notin> set b" "CHR ''+'' \<notin> set c"
    by (simp_all add: skipped_def)
  then have ne: "a \<noteq> a @ ''+'' @ b @ ''+'' @ c" "b \<noteq> a @ ''+'' @ b @ ''+'' @ c"
      "c \<noteq> a @ ''+'' @ b @ ''+'' @ c"
    by (auto dest: arg_cong [where f = set])
  have single: "single_table 5 (tables s) = None"
    by (subst single_table_filter) (simp add: free unskipped caps)
  have by_room: "empty_tables_by_room (tables s) [] = [(r, [(a, 2), (b, 2), (c, 2)])]"
    by (subst empty_tables_by_room_filter)
       (simp add: free unskipped caps rooms entries_def)
  have rooms_found: "try_rooms 5 [(r, [(a, 2), (b, 2), (c, 2)])] = Some (r, 6, [a, b, c])"
    by simp
  show ?thesis
    using ne look
    by (auto simp: find_best_table_for_group_def single by_room rooms_found Let_def
        AList.update_conv' map_of_mark_combined)
qed

theorem three_tables_of_two_combine_witness:
  "filter (\<lambda>(t, ti). \<not> skipped t ti)
     (tables (run [AddTable ''D'' 8 ''R'', AddTable ''A'' 2 ''R'', AddTable ''B'' 2 ''R'',
                   AddTable ''C'' 2 ''R'', AddGuests 6 None, SeatGuests 1 ''D'',
                   AddGuests 5 None]))
     = [(''A'', \<lparr>capacity = 2, occupied = False, combined = False, component_tables = None,
                  room = ''R''\<rparr>),
        (''B'', \<lparr>capacity = 2, occupied = False, combined = False, component_tables = None,
                  room = ''R''\<rparr>),
        (''C'', \<lparr>capacity = 2, occupied = False, combined = False, component_tables = None,
                  room = ''R''\<rparr>)] \<and>
   fst (find_best_table_for_group
          (run [AddTable ''D'' 8 ''R'', AddTable ''A'' 2 ''R'', AddTable ''B'' 2 ''R'',
                AddTable ''C'' 2 ''R'', AddGuests 6 None, SeatGuests 1 ''D'',
                AddGuests 5 None]) 5 2)
     = (Some ''A+B+C'', True, Some [''A'', ''B'', ''C'']) \<and>
   map_of (tables (snd (find_best_table_for_group
          (run [AddTable ''D'' 8 ''R'', AddTable ''A'' 2 ''R'', AddTable ''B'' 2 ''R'',
                AddTable ''C'' 2 ''R'', AddGuests 6 None, SeatGuests 1 ''D'',
                AddGuests 5 None]) 5 2))) ''A+B+C''
     = Some \<lparr>capacity = 6, occupied = True, combined = True,
             component_tables = Some [''A'', ''B'', ''C''], room = ''R''\<rparr> \<and>
   map_of (tables (snd (find_best_table_for_group
          (run [AddTable ''D'' 8 ''R'', AddTable ''A'' 2 ''R'', AddTable ''B'' 2 ''R'',
                AddTable ''C'' 2 ''R'', AddGuests 6 None, SeatGuests 1 ''D'',
                AddGuests 5 None]) 5 2))) ''B''
     = Some \<lparr>capacity = 2, occupied = True, combined = True, component_tables = None,
             room = ''R''\<rparr>"
proof -
  let ?s = "run [AddTable ''D'' 8 ''R'', AddTable ''A'' 2 ''R'', AddTable ''B'' 2 ''R'',
                 AddTable ''C'' 2 ''R'', AddGuests 6 None, SeatGuests 1 ''D'',
                 AddGuests 5 None]"
  let ?t = "\<lparr>capacity = 2, occupied = False, combined = False, component_tables = None,
             room = ''R''\<rparr>"
  have free: "filter (\<lambda>(t, ti). \<not> skipped t ti) (tables ?s) =
      [(''A'', ?t), (''B'', ?t), (''C'', ?t)]"
    by code_simp
  have keys: "distinct (map fst (tables ?s))"
    by code_simp
  have "capacity ?t = 2" "room ?t = ''R''"
    by simp_all
  note three_tables_of_two_combine
    [OF free keys this(1) this(1) this(1) this(2) this(2) this(2), of 2]
  with free show ?thesis by simp
qed

subsection \<open>Releasing the last group of a combined table\<close>

text \<open>
  Claim C5.  When a group is the one group listed under a combined table (an
  identifier with a plus sign that the combination dictionary records),
  \<open>mark_group_left\<close> succeeds, every component that is registered gets
  \<open>occupied = False\<close> and \<open>combined = False\<close>, and afterwards the combined
  identifier is a key of neither the tables, nor the assignments, nor the combination
  dictionary.  The other tables keep their records.
\<close>

theorem release_breaks_combination:
  "map_of (seated_groups s) g = Some sg \<Longrightarrow>
   listed (assignments s) (table sg) = [g] \<Longrightarrow>
   has_key (table sg) (tables s) \<Longrightarrow>
   CHR ''+'' \<in> set (table sg) \<Longrightarrow>
   map_of (combined_tables s) (table sg) = Some comps \<Longrightarrow>
   fst (mark_group_left s g) = Some (True, ''Group marked as left'') \<and>
   \<not> has_key (table sg) (tables (snd (mark_group_left s g))) \<and>
   \<not> has_key (table sg) (assignments (snd (mark_group_left s g))) \<and>
   \<not> has_key (table sg) (combined_tables (snd (mark_group_left s g))) \<and>
   \<not> has_key g (seated_groups (snd (mark_group_left s g))) \<and>
   (\<forall>t ti. t \<in> set comps \<and> t \<noteq> table sg \<and> map_of (tables s) t = Some ti \<longrightarrow>
      map_of (tables (snd (mark_group_left s g))) t =
        Some (ti\<lparr>occupied := False, combined := False\<rparr>)) \<and>
   (\<forall>t. t \<notin> set comps \<and> t \<noteq> table sg \<longrightarrow>
      map_of (tables (snd (mark_group_left s g))) t = map_of (tables s) t)"
proof -
  assume sg: "map_of (seated_groups s) g = Some sg"
    and lst: "listed (assignments s) (table sg) = [g]"
    and tab: "has_key (table sg) (tables s)"
    and plus: "CHR ''+'' \<in> set (table sg)"
    and comb: "map_of (combined_tables s) (table sg) = Some comps"
  from lst have key: "has_key (table sg) (assignments s)"
    by (auto simp: listed_def has_key_def split: option.splits)
  have tab': "has_key (table sg) (AList.map_entry (table sg) f (tables s))" for f
    using tab by (simp add: has_key_iff AList.dom_map_entry)
  show ?thesis
    using sg lst tab plus comb key tab'
    by (simp add: mark_group_left_def Let_def has_key_def AList.delete_conv'
        map_of_fold_restore AList.map_of_map_entry)
qed

theorem release_breaks_combination_witness:
  "map_of (seated_groups (run [AddTable ''A'' 2 ''R'', AddTable ''B'' 2 ''R'',
        AddTable ''C'' 2 ''R'', AddGuests 5 None, OptimizeSeating])) 1
     = Some \<lparr>size_g = 5, name = ''Group 1'', table = ''A+B+C''\<rparr> \<and>
   listed (assignments (run [AddTable ''A'' 2 ''R'', AddTable ''B'' 2 ''R'',
        AddTable ''C'' 2 ''R'', AddGuests 5 None, OptimizeSeating])) ''A+B+C'' = [1] \<and>
   map_of (combined_tables (run [AddTable ''A'' 2 ''R'', AddTable ''B'' 2 ''R'',
        AddTable ''C'' 2 ''R'', AddGuests 5 None, OptimizeSeating])) ''A+B+C''
     = Some [''A'', ''B'', ''C''] \<and>
   fst (mark_group_left (run [AddTable ''A'' 2 ''R'', AddTable ''B'' 2 ''R'',
        AddTable ''C'' 2 ''R'', AddGuests 5 None, OptimizeSeating]) 1)
     = Some (True, ''Group marked as left'') \<and>
   \<not> has_key ''A+B+C'' (tables (snd (mark_group_left (run [AddTable ''A'' 2 ''R'',
        AddTable ''B'' 2 ''R'', AddTable ''C'' 2 ''R'', AddGuests 5 None, OptimizeSeating]) 1))) \<and>
   map_of (tables (snd (mark_group_left (run [AddTable ''A'' 2 ''R'',
        AddTable ''B'' 2 ''R'', AddTable ''C'' 2 ''R'', AddGuests 5 None, OptimizeSeating]) 1)))
      ''C''
     = Some \<lparr>capacity = 2, occupied = False, combined = False, component_tables = None,
             room = ''R''\<rparr>"
proof -
  let ?s = "run [AddTable ''A'' 2 ''R'', AddTable ''B'' 2 ''R'', AddTable ''C'' 2 ''R'',
                 AddGuests 5 None, OptimizeSeating]"
  let ?sg = "\<lparr>size_g = 5, name = ''Group 1'', table = ''A+B+C''\<rparr>"
  have sg: "map_of (seated_groups ?s) 1 = Some ?sg"
    by code_simp
  have lst: "listed (assignments ?s) (table ?sg) = [1]"
    by code_simp
  have tab: "has_key (table ?sg) (tables ?s)"
    by code_simp
  have plus: "CHR ''+'' \<in> set (table ?sg)"
    by simp
  have comb: "map_of (combined_tables ?s) (table ?sg) = Some [''A'', ''B'', ''C'']"
    by code_simp
  have c: "map_of (tables ?s) ''C'' =
      Some \<lparr>capacity = 2, occupied = True, combined = True, component_tables = None,
            room = ''R''\<rparr>"
    by code_simp
  note rel = release_breaks_combination [OF sg lst tab plus comb]
  from rel have "fst (mark_group_left ?s 1) = Some (True, ''Group marked as left'')"
    and "\<not> has_key ''A+B+C'' (tables (snd (mark_group_left ?s 1)))"
    by simp_all
  moreover from rel c have "map_of (tables (snd (mark_group_left ?s 1))) ''C'' =
      Some \<lparr>capacity = 2, occupied = False, combined = False, component_tables = None,
            room = ''R''\<rparr>"
    by simp
  ultimately show ?thesis
    using sg lst comb by simp
qed

subsection \<open>Adding a table\<close>

text \<open>
  Claim C6 says that \<open>add_table\<close> fails on an identifier that is present and leaves the
  record as it is.  The method has no result and no check: on the identifier of an
  occupied table of capacity 4 it stores an unoccupied record of capacity 6.
\<close>

theorem add_table_duplicate_counterexample:
  "map_of (tables (run [AddTable ''T2'' 4 ''GREENROOM'', AddGuests 2 None, SeatGuests 1 ''T2'']))
      ''T2''
     = Some \<lparr>capacity = 4, occupied = True, combined = False, component_tables = None,
             room = ''GREENROOM''\<rparr> \<and>
   map_of (tables (add_table (run [AddTable ''T2'' 4 ''GREENROOM'', AddGuests 2 None,
        SeatGuests 1 ''T2'']) ''T2'' 6 ''RESTAURANT'')) ''T2''
     = Some \<lparr>capacity = 6, occupied = False, combined = False, component_tables = None,
             room = ''RESTAURANT''\<rparr>"
  by code_simp

text \<open>
  Claim C6, amended.  \<open>add_table\<close> never fails: it stores a record that is not
  combined and not occupied, with the given capacity and room, under the identifier,
  and changes nothing else.  A new identifier goes to the end of the dictionary; for an
  identifier that is present the record is replaced where it stands.
\<close>

theorem add_table_overwrites:
  "map_of (tables (add_table s table_id cap rm)) table_id =
     Some \<lparr>capacity = cap, occupied = False, combined = False, component_tables = None,
           room = rm\<rparr> \<and>
   (other \<noteq> table_id \<longrightarrow>
      map_of (tables (add_table s table_id cap rm)) other = map_of (tables s) other) \<and>
   (\<not> has_key table_id (tables s) \<longrightarrow>
      tables (add_table s table_id cap rm) =
        tables s @ [(table_id, \<lparr>capacity = cap, occupied = False, combined = False,
                                 component_tables = None, room = rm\<rparr>)]) \<and>
   (has_key table_id (tables s) \<longrightarrow>
      map fst (tables (add_table s table_id cap rm)) = map fst (tables s)) \<and>
   add_table s table_id cap rm = s\<lparr>tables := tables (add_table s table_id cap rm)\<rparr>"
  by (simp add: add_table_def AList.update_conv' update_fresh update_present_keys)

theorem add_table_overwrites_witness:
  "\<not> has_key ''T1A'' (tables init) \<and>
   tables (add_table init ''T1A'' 2 ''GREENROOM'') =
     [(''T1A'', \<lparr>capacity = 2, occupied = False, combined = False, component_tables = None,
                  room = ''GREENROOM''\<rparr>)] \<and>
   has_key ''T1A'' (tables (add_table init ''T1A'' 2 ''GREENROOM'')) \<and>
   map fst (tables (add_table (add_table init ''T1A'' 2 ''GREENROOM'') ''T1A'' 6 ''RESTAURANT''))
     = [''T1A''] \<and>
   map_of (tables (add_table (add_table init ''T1A'' 2 ''GREENROOM'') ''T1A'' 6 ''RESTAURANT''))
      ''T1A''
     = Some \<lparr>capacity = 6, occupied = False, combined = False, component_tables = None,
             room = ''RESTAURANT''\<rparr>"
proof -
  let ?s = "add_table init ''T1A'' 2 ''GREENROOM''"
  have fresh: "\<not> has_key ''T1A'' (tables init)"
    by code_simp
  have present: "has_key ''T1A'' (tables ?s)"
    by code_simp
  have before: "map fst (tables ?s) = [''T1A'']"
    by code_simp
  have empty: "tables init = []"
    by (simp add: init_def)
  note first = add_table_overwrites [of init "''T1A''" 2 "''GREENROOM''"]
  note second = add_table_overwrites [of ?s "''T1A''" 6 "''RESTAURANT''"]
  from first fresh empty have "tables ?s =
      [(''T1A'', \<lparr>capacity = 2, occupied = False, combined = False, component_tables = None,
                  room = ''GREENROOM''\<rparr>)]"
    by simp
  moreover from second present before
  have "map fst (tables (add_table ?s ''T1A'' 6 ''RESTAURANT'')) = [''T1A'']"
    by simp
  moreover from second
  have "map_of (tables (add_table ?s ''T1A'' 6 ''RESTAURANT'')) ''T1A'' =
      Some \<lparr>capacity = 6, occupied = False, combined = False, component_tables = None,
            room = ''RESTAURANT''\<rparr>"
    by simp
  ultimately show ?thesis
    using fresh present by simp
qed

subsection \<open>Seating a group and releasing it again\<close>

lemma seat_guests_success:
  assumes "fst (seat_guests s g t) = (True, m)"
  shows "\<exists>gd. map_of (groups s) g = Some gd \<and> has_key t (tables s) \<and>
           snd (seat_guests s g t) = do_seat s g (size_g gd) (name gd) t"
  using assms
  by (auto simp: seat_guests_def Let_def has_key_def split: option.splits if_splits)

text \<open>Seating a group that is not yet listed under a table and releasing it right
  away gives the table its list back, and leaves its flag saying whether that list is
  empty; so the table has its record back wherever the flag agreed with the list before
  the seating.  (A table with an empty list that is a recorded combination is left out:
  the release would break it.)\<close>

lemma seat_then_release_round_trip:
  assumes tab: "map_of (tables s) t = Some ti"
    and fresh: "g \<notin> set (listed (assignments s) t)"
    and plain: "listed (assignments s) t \<noteq> [] \<or> CHR ''+'' \<notin> set t \<or>
                map_of (combined_tables s) t = None"
    and seated: "fst (seat_guests s g t) = (True, m)"
  shows "fst (mark_group_left (snd (seat_guests s g t)) g) = Some (True, ''Group marked as left'') \<and>
         listed (assignments (snd (mark_group_left (snd (seat_guests s g t)) g))) t =
           listed (assignments s) t \<and>
         map_of (tables (snd (mark_group_left (snd (seat_guests s g t)) g))) t =
           Some (ti\<lparr>occupied := listed (assignments s) t \<noteq> []\<rparr>)"
proof -
  from seat_guests_success [OF seated] obtain gd
    where "map_of (groups s) g = Some gd \<and> has_key t (tables s) \<and>
           snd (seat_guests s g t) = do_seat s g (size_g gd) (name gd) t" ..
  then have s1: "snd (seat_guests s g t) = do_seat s g (size_g gd) (name gd) t"
    by simp
  let ?s1 = "do_seat s g (size_g gd) (name gd) t"
  have sg: "map_of (seated_groups ?s1) g =
      Some \<lparr>size_g = size_g gd, name = name gd, table = t\<rparr>"
    by (simp add: do_seat_def AList.update_conv')
  have lst: "listed (assignments ?s1) t = listed (assignments s) t @ [g]"
    by (simp add: do_seat_def listed_update)
  have key: "has_key t (assignments ?s1)"
    by (simp add: do_seat_def has_key_update)
  have rest: "remove1 g (listed (assignments s) t @ [g]) = listed (assignments s) t"
    using fresh by (simp add: remove1_append)
  have tabs: "tables ?s1 = AList.map_entry t (\<lambda>t. t\<lparr>occupied := True\<rparr>) (tables s)"
    and combs: "combined_tables ?s1 = combined_tables s"
    by (simp_all add: do_seat_def)
  have reg: "has_key t (tables s)"
    using tab by (simp add: has_key_def)
  show ?thesis
  proof (cases "listed (assignments s) t = []")
    case True
    with plain tab reg show ?thesis
      unfolding s1
      by (auto simp: mark_group_left_def Let_def sg lst key rest tabs combs
          AList.map_of_map_entry listed_update)
  next
    case False
    with tab show ?thesis
      unfolding s1
      by (simp add: mark_group_left_def Let_def sg lst key rest tabs
          AList.map_of_map_entry listed_update)
  qed
qed

lemma seat_then_release_in_sync:
  assumes "map_of (tables s) t = Some ti"
    and "occupied ti \<longleftrightarrow> listed (assignments s) t \<noteq> []"
    and "g \<notin> set (listed (assignments s) t)"
    and "listed (assignments s) t \<noteq> [] \<or> CHR ''+'' \<notin> set t \<or>
         map_of (combined_tables s) t = None"
    and "fst (seat_guests s g t) = (True, m)"
  shows "map_of (tables (snd (mark_group_left (snd (seat_guests s g t)) g))) t = Some ti"
proof -
  from assms(2) have "ti\<lparr>occupied := listed (assignments s) t \<noteq> []\<rparr> = ti"
    by simp
  with seat_then_release_round_trip [OF assms(1,3,4,5)] show ?thesis
    by simp
qed

text \<open>
  Claim C9: for every table that is not combined and every waiting group, if
  \<open>seat_guests\<close> succeeds then \<open>mark_group_left\<close> right after it gives the table its
  occupied flag and its list back.  The calls below are all open to a user of the
  application.  Table \<open>A\<close> is removed and added again while the combination \<open>A+B\<close>
  stands, the optimizer seats group 2 at it, and the release of group 1 breaks the
  combination and clears the flag of \<open>A\<close> over the seated group.  Table \<open>A\<close> is then not
  combined, its flag is clear and group 2 is listed under it.  Seating group 3 at \<open>A\<close>
  succeeds, releasing it succeeds, and the flag of \<open>A\<close> is then set, where it was clear
  before the seating.
\<close>

theorem round_trip_leaves_flag_set:
  "map_of (tables (run [AddTable ''A'' 4 ''R'', AddTable ''B'' 2 ''R'', AddGuests 5 None,
        OptimizeSeating, RemoveTable ''A'', AddTable ''A'' 4 ''R'', AddGuests 3 None,
        OptimizeSeating, MarkGroupLeft 1, AddGuests 1 None])) ''A''
     = Some \<lparr>capacity = 4, occupied = False, combined = False, component_tables = None,
             room = ''R''\<rparr> \<and>
   map_of (groups (run [AddTable ''A'' 4 ''R'', AddTable ''B'' 2 ''R'', AddGuests 5 None,
        OptimizeSeating, RemoveTable ''A'', AddTable ''A'' 4 ''R'', AddGuests 3 None,
        OptimizeSeating, MarkGroupLeft 1, AddGuests 1 None])) 3
     = Some \<lparr>size_g = 1, name = ''Group 3''\<rparr> \<and>
   fst (seat_guests (run [AddTable ''A'' 4 ''R'', AddTable ''B'' 2 ''R'', AddGuests 5 None,
        OptimizeSeating, RemoveTable ''A'', AddTable ''A'' 4 ''R'', AddGuests 3 None,
        OptimizeSeating, MarkGroupLeft 1, AddGuests 1 None]) 3 ''A'')
     = (True, ''Group seated successfully'') \<and>
   fst (mark_group_left (snd (seat_guests (run [AddTable ''A'' 4 ''R'', AddTable ''B'' 2 ''R'',
        AddGuests 5 None, OptimizeSeating, RemoveTable ''A'', AddTable ''A'' 4 ''R'',
        AddGuests 3 None, OptimizeSeating, MarkGroupLeft 1, AddGuests 1 None]) 3 ''A'')) 3)
     = Some (True, ''Group marked as left'') \<and>
   map_of (tables (snd (mark_group_left (snd (seat_guests (run [AddTable ''A'' 4 ''R'',
        AddTable ''B'' 2 ''R'', AddGuests 5 None, OptimizeSeating, RemoveTable ''A'',
        AddTable ''A'' 4 ''R'', AddGuests 3 None, OptimizeSeating, MarkGroupLeft 1,
        AddGuests 1 None]) 3 ''A'')) 3))) ''A''
     = Some \<lparr>capacity = 4, occupied = True, combined = False, component_tables = None,
             room = ''R''\<rparr>"
  by code_simp

subsection \<open>What the optimizer gives out\<close>

text \<open>\<open>find_best_table_for_group\<close> leaves the groups alone, keeps every key of the
  tables and of the combinations, and returns a registered identifier; so the two
  dictionary accesses of \<open>optimize_seating\<close> at the returned table never raise.\<close>

lemma single_table_registered: "single_table n ts = Some t \<Longrightarrow> has_key t ts"
  by (induction n ts rule: single_table.induct) (auto simp: has_key_def split: if_splits)

lemma find_best_frame:
  "groups (snd (find_best_table_for_group s n g)) = groups s \<and>
   seated_groups (snd (find_best_table_for_group s n g)) = seated_groups s \<and>
   next_group_id (snd (find_best_table_for_group s n g)) = next_group_id s"
  by (simp add: find_best_table_for_group_def Let_def split: option.splits prod.splits)

lemma find_best_keys:
  "has_key t (tables s) \<Longrightarrow> has_key t (tables (snd (find_best_table_for_group s n g)))"
  "has_key c (combined_tables s) \<Longrightarrow>
     has_key c (combined_tables (snd (find_best_table_for_group s n g)))"
  by (simp_all add: find_best_table_for_group_def Let_def has_key_update
      split: option.splits prod.splits)

lemma find_best_registered:
  "fst (find_best_table_for_group s n g) = (Some t, is_combined, chosen) \<Longrightarrow>
   has_key t (tables (snd (find_best_table_for_group s n g)))"
  by (auto simp: find_best_table_for_group_def Let_def has_key_update
      dest: single_table_registered split: option.splits prod.splits)

lemma find_best_combined:
  "fst (find_best_table_for_group s n g) = (tid, True, chosen) \<Longrightarrow>
   \<exists>comps. chosen = Some comps \<and> tid = Some (join_plus comps) \<and>
     has_key (join_plus comps) (combined_tables (snd (find_best_table_for_group s n g)))"
  by (auto simp: find_best_table_for_group_def Let_def has_key_update
      split: option.splits prod.splits)

text \<open>One pass of the loop of \<open>optimize_seating\<close> either leaves both group dictionaries
  and the log alone, or seats its group.\<close>

lemma optimize_group_step:
  assumes "optimize_group (g, gd) (s, log) = (s1, log1)"
  shows "(groups s1 = groups s \<and> seated_groups s1 = seated_groups s \<and> log1 = log) \<or>
         (has_key g (groups s) \<and>
          (\<exists>t. groups s1 = AList.delete g (groups s) \<and>
               seated_groups s1 =
                 AList.update g \<lparr>size_g = size_g gd, name = name gd, table = t\<rparr>
                   (seated_groups s) \<and>
               has_key t (tables s1) \<and>
               (log1 = log \<or>
                (\<exists>comps rm. log1 = log @ [\<lparr>msg_tables = Some comps, msg_room = rm,
                                             msg_group = name gd\<rparr>] \<and>
                   t = join_plus comps \<and> has_key t (combined_tables s1)))))"
proof (cases "has_key g (groups s)")
  case False
  with assms show ?thesis by simp
next
  case True
  obtain tid is_combined chosen s' where
    fb: "find_best_table_for_group s (size_g gd) g = ((tid, is_combined, chosen), s')"
    by (metis prod.exhaust)
  then have res: "fst (find_best_table_for_group s (size_g gd) g) = (tid, is_combined, chosen)"
    and s': "snd (find_best_table_for_group s (size_g gd) g) = s'"
    by simp_all
  from find_best_frame [of s "size_g gd" g] s'
  have frame: "groups s' = groups s" "seated_groups s' = seated_groups s"
    by simp_all
  show ?thesis
  proof (cases "\<exists>t. tid = Some t \<and> t \<noteq> []")
    case False
    with assms True fb frame show ?thesis
      by (cases tid) auto
  next
    case True
    then obtain t where t: "tid = Some t" "t \<noteq> []"
      by blast
    from find_best_registered [of s "size_g gd" g t is_combined chosen] res s' t
    have reg: "has_key t (tables s')"
      by simp
    show ?thesis
    proof (cases is_combined)
      case False
      with assms \<open>has_key g (groups s)\<close> fb frame t reg show ?thesis
        by (auto simp: do_seat_fields Let_def)
    next
      case True
      from find_best_combined [of s "size_g gd" g tid chosen] res s' True
      obtain comps where "chosen = Some comps" "tid = Some (join_plus comps)"
        "has_key (join_plus comps) (combined_tables s')"
        by auto
      with assms \<open>has_key g (groups s)\<close> fb frame t reg True show ?thesis
        by (auto simp: do_seat_fields Let_def)
    qed
  qed
qed

lemma optimize_group_keys:
  assumes "optimize_group (g, gd) (s, log) = (s1, log1)"
  shows "has_key t (tables s) \<Longrightarrow> has_key t (tables s1)"
    and "has_key c (combined_tables s) \<Longrightarrow> has_key c (combined_tables s1)"
  using assms find_best_keys [of _ s "size_g gd" g]
  by (auto simp: do_seat_fields Let_def split: if_splits prod.splits option.splits)

lemma optimize_group_shrinks:
  assumes "optimize_group (g, gd) (s, log) = (s1, log1)" and "has_key h (groups s1)"
  shows "has_key h (groups s)"
  using optimize_group_step [OF assms(1)] assms(2)
  by (auto simp: has_key_delete)

lemma optimize_group_others:
  assumes "optimize_group (g, gd) (s, log) = (s1, log1)"
    and "has_key h (groups s1) \<or> \<not> has_key h (groups s)"
  shows "map_of (seated_groups s1) h = map_of (seated_groups s) h"
  using optimize_group_step [OF assms(1)] assms(2)
  by (auto simp: has_key_delete AList.update_conv')

lemma optimize_group_seats:
  assumes "optimize_group (g, gd) (s, log) = (s1, log1)"
    and "has_key h (groups s)" and "\<not> has_key h (groups s1)"
  shows "h = g \<and> (\<exists>t. map_of (seated_groups s1) g =
            Some \<lparr>size_g = size_g gd, name = name gd, table = t\<rparr> \<and> has_key t (tables s1))"
  using optimize_group_step [OF assms(1)] assms(2,3)
  by (auto simp: has_key_delete AList.update_conv')

lemma optimize_group_logs:
  assumes "optimize_group (g, gd) (s, log) = (s1, log1)"
  shows "log1 = log \<or>
         (\<exists>comps rm. log1 = log @ [\<lparr>msg_tables = Some comps, msg_room = rm,
                                      msg_group = name gd\<rparr>] \<and>
            has_key g (groups s) \<and> \<not> has_key g (groups s1) \<and>
            map_of (seated_groups s1) g =
              Some \<lparr>size_g = size_g gd, name = name gd, table = join_plus comps\<rparr> \<and>
            has_key (join_plus comps) (combined_tables s1))"
  using optimize_group_step [OF assms(1)]
  by (auto simp: has_key_delete AList.update_conv')

lemma fold_optimize_shrinks:
  "fold optimize_group xs (s, log) = (s', log') \<Longrightarrow> has_key h (groups s') \<Longrightarrow>
   has_key h (groups s)"
proof (induction xs arbitrary: s log)
  case Nil
  then show ?case by simp
next
  case (Cons x xs)
  obtain g gd where x: "x = (g, gd)" by (cases x)
  obtain s1 log1 where step: "optimize_group (g, gd) (s, log) = (s1, log1)"
    by (cases "optimize_group (g, gd) (s, log)")
  with Cons.prems x have "fold optimize_group xs (s1, log1) = (s', log')"
    by simp
  from Cons.IH [OF this Cons.prems(2)] have "has_key h (groups s1)" .
  with step show ?case by (rule optimize_group_shrinks)
qed

lemma fold_optimize_keys:
  "fold optimize_group xs (s, log) = (s', log') \<Longrightarrow>
   (has_key t (tables s) \<longrightarrow> has_key t (tables s')) \<and>
   (has_key c (combined_tables s) \<longrightarrow> has_key c (combined_tables s'))"
proof (induction xs arbitrary: s log)
  case Nil
  then show ?case by simp
next
  case (Cons x xs)
  obtain g gd where x: "x = (g, gd)" by (cases x)
  obtain s1 log1 where step: "optimize_group (g, gd) (s, log) = (s1, log1)"
    by (cases "optimize_group (g, gd) (s, log)")
  with Cons.prems x have "fold optimize_group xs (s1, log1) = (s', log')"
    by simp
  from Cons.IH [OF this] optimize_group_keys [OF step] show ?case
    by blast
qed

lemma fold_optimize_others:
  "fold optimize_group xs (s, log) = (s', log') \<Longrightarrow>
   has_key h (groups s') \<or> \<not> has_key h (groups s) \<Longrightarrow>
   map_of (seated_groups s') h = map_of (seated_groups s) h"
proof (induction xs arbitrary: s log)
  case Nil
  then show ?case by simp
next
  case (Cons x xs)
  obtain g gd where x: "x = (g, gd)" by (cases x)
  obtain s1 log1 where step: "optimize_group (g, gd) (s, log) = (s1, log1)"
    by (cases "optimize_group (g, gd) (s, log)")
  with Cons.prems x have rest: "fold optimize_group xs (s1, log1) = (s', log')"
    by simp
  from Cons.prems(2) have mid: "has_key h (groups s1) \<or> \<not> has_key h (groups s)"
    using fold_optimize_shrinks [OF rest] by blast
  then have tail: "has_key h (groups s') \<or> \<not> has_key h (groups s1)"
    using Cons.prems(2) optimize_group_shrinks [OF step] by blast
  have "map_of (seated_groups s') h = map_of (seated_groups s1) h"
    using Cons.IH [OF rest tail] .
  also have "\<dots> = map_of (seated_groups s) h"
    using optimize_group_others [OF step mid] .
  finally show ?case .
qed

lemma fold_optimize_seats:
  "fold optimize_group xs (s, log) = (s', log') \<Longrightarrow>
   has_key h (groups s) \<Longrightarrow> \<not> has_key h (groups s') \<Longrightarrow>
   \<exists>gd t. (h, gd) \<in> set xs \<and>
     map_of (seated_groups s') h = Some \<lparr>size_g = size_g gd, name = name gd, table = t\<rparr> \<and>
     has_key t (tables s')"
proof (induction xs arbitrary: s log)
  case Nil
  then show ?case by simp
next
  case (Cons x xs)
  obtain g gd where x: "x = (g, gd)" by (cases x)
  obtain s1 log1 where step: "optimize_group (g, gd) (s, log) = (s1, log1)"
    by (cases "optimize_group (g, gd) (s, log)")
  with Cons.prems x have rest: "fold optimize_group xs (s1, log1) = (s', log')"
    by simp
  show ?case
  proof (cases "has_key h (groups s1)")
    case True
    from Cons.IH [OF rest True Cons.prems(3)] show ?thesis
      by auto
  next
    case False
    from optimize_group_seats [OF step Cons.prems(2) False] obtain t
      where h: "h = g"
        and sg: "map_of (seated_groups s1) g =
                   Some \<lparr>size_g = size_g gd, name = name gd, table = t\<rparr>"
        and reg: "has_key t (tables s1)"
      by blast
    from False have "map_of (seated_groups s') h = map_of (seated_groups s1) h"
      by (intro fold_optimize_others [OF rest]) simp
    moreover from fold_optimize_keys [OF rest] reg have "has_key t (tables s')"
      by blast
    ultimately show ?thesis
      using h sg x by auto
  qed
qed

lemma fold_optimize_logs:
  "fold optimize_group xs (s, log) = (s', log') \<Longrightarrow>
   \<exists>new. log' = log @ new \<and>
     (\<forall>m \<in> set new. \<exists>h gd comps. (h, gd) \<in> set xs \<and>
        has_key h (groups s) \<and> \<not> has_key h (groups s') \<and>
        msg_group m = name gd \<and> msg_tables m = Some comps \<and>
        map_of (seated_groups s') h =
          Some \<lparr>size_g = size_g gd, name = name gd, table = join_plus comps\<rparr> \<and>
        has_key (join_plus comps) (combined_tables s'))"
proof (induction xs arbitrary: s log)
  case Nil
  then show ?case by simp
next
  case (Cons x xs)
  obtain g gd where x: "x = (g, gd)" by (cases x)
  obtain s1 log1 where step: "optimize_group (g, gd) (s, log) = (s1, log1)"
    by (cases "optimize_group (g, gd) (s, log)")
  with Cons.prems x have rest: "fold optimize_group xs (s1, log1) = (s', log')"
    by simp
  from Cons.IH [OF rest] obtain new where new: "log' = log1 @ new"
    and tail: "\<forall>m \<in> set new. \<exists>h gd comps. (h, gd) \<in> set xs \<and>
        has_key h (groups s1) \<and> \<not> has_key h (groups s') \<and>
        msg_group m = name gd \<and> msg_tables m = Some comps \<and>
        map_of (seated_groups s') h =
          Some \<lparr>size_g = size_g gd, name = name gd, table = join_plus comps\<rparr> \<and>
        has_key (join_plus comps) (combined_tables s')"
    by blast
  have tail': "\<exists>h gd comps. (h, gd) \<in> set (x # xs) \<and>
        has_key h (groups s) \<and> \<not> has_key h (groups s') \<and>
        msg_group m = name gd \<and> msg_tables m = Some comps \<and>
        map_of (seated_groups s') h =
          Some \<lparr>size_g = size_g gd, name = name gd, table = join_plus comps\<rparr> \<and>
        has_key (join_plus comps) (combined_tables s')" if "m \<in> set new" for m
  proof -
    from tail that obtain h gd' comps where "(h, gd') \<in> set xs"
      "has_key h (groups s1)" "\<not> has_key h (groups s')"
      "msg_group m = name gd'" "msg_tables m = Some comps"
      "map_of (seated_groups s') h =
          Some \<lparr>size_g = size_g gd', name = name gd', table = join_plus comps\<rparr>"
      "has_key (join_plus comps) (combined_tables s')"
      by blast
    moreover from this(2) have "has_key h (groups s)"
      by (rule optimize_group_shrinks [OF step])
    ultimately show ?thesis
      by (intro exI [of _ h] exI [of _ gd'] exI [of _ comps]) simp
  qed
  from optimize_group_logs [OF step] show ?case
  proof
    assume "log1 = log"
    with new tail' show ?thesis by blast
  next
    assume "\<exists>comps rm. log1 = log @ [\<lparr>msg_tables = Some comps, msg_room = rm,
                                      msg_group = name gd\<rparr>] \<and>
            has_key g (groups s) \<and> \<not> has_key g (groups s1) \<and>
            map_of (seated_groups s1) g =
              Some \<lparr>size_g = size_g gd, name = name gd, table = join_plus comps\<rparr> \<and>
            has_key (join_plus comps) (combined_tables s1)"
    then obtain comps rm where log1: "log1 = log @ [\<lparr>msg_tables = Some comps, msg_room = rm,
                                      msg_group = name gd\<rparr>]"
      and g: "has_key g (groups s)" "\<not> has_key g (groups s1)"
      and sg: "map_of (seated_groups s1) g =
              Some \<lparr>size_g = size_g gd, name = name gd, table = join_plus comps\<rparr>"
      and comb: "has_key (join_plus comps) (combined_tables s1)"
      by blast
    from g(2) have gone: "\<not> has_key g (groups s')"
      using fold_optimize_shrinks [OF rest] by blast
    from g(2) have "map_of (seated_groups s') g = map_of (seated_groups s1) g"
      by (intro fold_optimize_others [OF rest]) simp
    with sg have sg': "map_of (seated_groups s') g =
              Some \<lparr>size_g = size_g gd, name = name gd, table = join_plus comps\<rparr>"
      by simp
    from comb have comb': "has_key (join_plus comps) (combined_tables s')"
      using fold_optimize_keys [OF rest] by blast
    let ?m = "\<lparr>msg_tables = Some comps, msg_room = rm, msg_group = name gd\<rparr>"
    have first: "\<exists>h gd' comps'. (h, gd') \<in> set (x # xs) \<and>
        has_key h (groups s) \<and> \<not> has_key h (groups s') \<and>
        msg_group ?m = name gd' \<and> msg_tables ?m = Some comps' \<and>
        map_of (seated_groups s') h =
          Some \<lparr>size_g = size_g gd', name = name gd', table = join_plus comps'\<rparr> \<and>
        has_key (join_plus comps') (combined_tables s')"
      using x g(1) gone sg' comb'
      by (intro exI [of _ g] exI [of _ gd] exI [of _ comps]) simp
    have "log' = log @ (?m # new)"
      using new log1 by simp
    moreover have "\<forall>m \<in> set (?m # new). \<exists>h gd comps. (h, gd) \<in> set (x # xs) \<and>
        has_key h (groups s) \<and> \<not> has_key h (groups s') \<and>
        msg_group m = name gd \<and> msg_tables m = Some comps \<and>
        map_of (seated_groups s') h =
          Some \<lparr>size_g = size_g gd, name = name gd, table = join_plus comps\<rparr> \<and>
        has_key (join_plus comps) (combined_tables s')"
      using first tail' by simp
    ultimately show ?thesis by blast
  qed
qed

text \<open>A table found by the first loop has no plus sign in its identifier.  When the
  first loop finds none, every table that is not skipped is too small for the group, so
  a combination has at least two components and its identifier has a plus sign.\<close>

lemma single_table_unskipped: "single_table n ts = Some t \<Longrightarrow> CHR ''+'' \<notin> set t"
  by (induction n ts rule: single_table.induct) (auto simp: skipped_def split: if_splits)

lemma single_table_none:
  "single_table n ts = None \<Longrightarrow> (t, ti) \<in> set ts \<Longrightarrow> \<not> skipped t ti \<Longrightarrow> capacity ti < n"
  by (induction n ts rule: single_table.induct) (auto split: if_splits)

lemma entries_update:
  "entries (AList.update k v d) rm = (if rm = k then v else entries d rm)"
  by (simp add: entries_def AList.update_conv')

lemma empty_tables_by_room_small:
  "x \<in> set (entries (empty_tables_by_room ts acc) rm) \<Longrightarrow>
   \<forall>t ti. (t, ti) \<in> set ts \<and> \<not> skipped t ti \<longrightarrow> capacity ti < n \<Longrightarrow>
   \<forall>r y. y \<in> set (entries acc r) \<longrightarrow> snd y < n \<Longrightarrow>
   snd x < n"
proof (induction ts acc arbitrary: rm x rule: empty_tables_by_room.induct)
  case (1 acc)
  then show ?case by (metis empty_tables_by_room.simps(1))
next
  case (2 table_id ti rest acc)
  from "2.prems"(2) have rest: "\<forall>t ti. (t, ti) \<in> set rest \<and> \<not> skipped t ti \<longrightarrow> capacity ti < n"
    by auto
  show ?case
  proof (cases "skipped table_id ti")
    case True
    with "2.prems"(1) have "x \<in> set (entries (empty_tables_by_room rest acc) rm)"
      by simp
    from "2.IH"(1) [OF True this rest "2.prems"(3)] show ?thesis .
  next
    case False
    let ?acc = "AList.update (room ti) (entries acc (room ti) @ [(table_id, capacity ti)]) acc"
    from "2.prems"(2) False have small: "capacity ti < n"
      by auto
    have acc': "\<forall>r y. y \<in> set (entries ?acc r) \<longrightarrow> snd y < n"
      using "2.prems"(3) small by (auto simp: entries_update split: if_splits)
    from "2.prems"(1) False have "x \<in> set (entries (empty_tables_by_room rest ?acc) rm)"
      by simp
    from "2.IH"(2) [OF False this rest acc'] show ?thesis .
  qed
qed

lemma accumulate_extends:
  "accumulate n xs cur chosen = Some (sm, ch) \<Longrightarrow> length chosen < length ch"
  by (induction n xs cur chosen rule: accumulate.induct) (auto split: if_splits)

lemma try_starts_two:
  "try_starts n xs = Some (sm, ch) \<Longrightarrow> \<forall>x \<in> set xs. snd x < n \<Longrightarrow> 2 \<le> length ch"
proof (induction n xs rule: try_starts.induct)
  case (1 n)
  then show ?case by simp
next
  case (2 n x xs)
  obtain t c where x: "x = (t, c)" by (cases x)
  with "2.prems"(2) have c: "c < n" by simp
  show ?case
  proof (cases "accumulate n (x # xs) 0 []")
    case None
    with 2 show ?thesis by simp
  next
    case (Some r)
    with "2.prems"(1) have "accumulate n (x # xs) 0 [] = Some (sm, ch)"
      by simp
    with x c have "accumulate n xs c [t] = Some (sm, ch)"
      by simp
    from accumulate_extends [OF this] show ?thesis by simp
  qed
qed

lemma try_rooms_two:
  "try_rooms n d = Some (rm, sm, ch) \<Longrightarrow>
   \<forall>r. \<forall>x \<in> set (entries d r). snd x < n \<Longrightarrow> distinct (map fst d) \<Longrightarrow> 2 \<le> length ch"
proof (induction n d rule: try_rooms.induct)
  case (1 n)
  then show ?case by simp
next
  case (2 n r empty_tables rest)
  from "2.prems"(2) have "\<forall>x \<in> set (entries ((r, empty_tables) # rest) r). snd x < n"
    by blast
  then have here: "\<forall>x \<in> set (sort_key (\<lambda>x. - snd x) empty_tables). snd x < n"
    by (simp add: entries_def)
  show ?case
  proof (cases "try_starts n (sort_key (\<lambda>x. - snd x) empty_tables)")
    case None
    have "\<forall>r'. \<forall>x \<in> set (entries rest r'). snd x < n"
    proof (intro allI ballI)
      fix r' x
      assume x: "x \<in> set (entries rest r')"
      then have "map_of rest r' \<noteq> None"
        by (cases "map_of rest r'") (simp_all add: entries_def)
      then have "r' \<in> fst ` set rest"
        by (simp add: map_of_eq_None_iff)
      with "2.prems"(3) have "r' \<noteq> r"
        by auto
      with x have "x \<in> set (entries ((r, empty_tables) # rest) r')"
        by (simp add: entries_def)
      with "2.prems"(2) show "snd x < n"
        by blast
    qed
    with 2 None show ?thesis by simp
  next
    case (Some p)
    with "2.prems"(1) have "try_starts n (sort_key (\<lambda>x. - snd x) empty_tables) = Some (sm, ch)"
      by (auto split: prod.splits)
    from try_starts_two [OF this here] show ?thesis .
  qed
qed

lemma join_plus_two: "2 \<le> length xs \<Longrightarrow> CHR ''+'' \<in> set (join_plus xs)"
  by (cases xs rule: join_plus.cases) auto

lemma distinct_update_keys: "distinct (map fst d) \<Longrightarrow> distinct (map fst (AList.update k v d))"
  by (rule AList.distinct_update)

lemma empty_tables_by_room_distinct:
  "distinct (map fst acc) \<Longrightarrow> distinct (map fst (empty_tables_by_room ts acc))"
  by (induction ts acc rule: empty_tables_by_room.induct) (auto simp: AList.distinct_update)

lemma find_best_single_plain:
  "fst (find_best_table_for_group s n g) = (Some t, False, chosen) \<Longrightarrow> CHR ''+'' \<notin> set t"
  by (auto simp: find_best_table_for_group_def Let_def dest: single_table_unskipped
      split: option.splits prod.splits)

lemma distinct_keys_insort:
  "distinct (map fst (insort_key f x xs)) \<longleftrightarrow> distinct (map fst (x # xs))"
  by (induction xs) (auto simp: set_insort_key)

lemma distinct_keys_sort: "distinct (map fst (sort_key f xs)) \<longleftrightarrow> distinct (map fst xs)"
  by (induction xs) (simp_all add: distinct_keys_insort)

text \<open>Joining identifiers without a plus sign loses nothing: the joined identifier
  determines the list.\<close>

lemma append_sep_inject:
  "c \<notin> set x \<Longrightarrow> c \<notin> set y \<Longrightarrow> x @ c # r = y @ c # r' \<Longrightarrow> x = y \<and> r = r'"
proof (induction x arbitrary: y)
  case Nil
  then show ?case by (cases y) auto
next
  case (Cons a x)
  then show ?case by (cases y) auto
qed

lemma join_plus_inject:
  "\<forall>t \<in> set xs. CHR ''+'' \<notin> set t \<Longrightarrow> \<forall>t \<in> set ys. CHR ''+'' \<notin> set t \<Longrightarrow>
   xs \<noteq> [] \<Longrightarrow> ys \<noteq> [] \<Longrightarrow> join_plus xs = join_plus ys \<Longrightarrow> xs = ys"
proof (induction xs arbitrary: ys rule: join_plus.induct)
  case 1
  then show ?case by simp
next
  case (2 x)
  show ?case
  proof (cases ys rule: join_plus.cases)
    case 1
    with 2 show ?thesis by simp
  next
    case (2 y)
    with "2.prems" show ?thesis by simp
  next
    case (3 y y' ys')
    with "2.prems" have "x = y @ CHR ''+'' # join_plus (y' # ys')"
      by simp
    with "2.prems"(1) show ?thesis by auto
  qed
next
  case (3 x x' xs)
  show ?case
  proof (cases ys rule: join_plus.cases)
    case 1
    with 3 show ?thesis by simp
  next
    case (2 y)
    with "3.prems" have "y = x @ CHR ''+'' # join_plus (x' # xs)"
      by simp
    with "3.prems"(2) 2 show ?thesis by auto
  next
    case ys: (3 y y' ys')
    with "3.prems" have eq: "x @ CHR ''+'' # join_plus (x' # xs) = y @ CHR ''+'' # join_plus (y' # ys')"
      by simp
    from "3.prems"(1,2) ys have "CHR ''+'' \<notin> set x" "CHR ''+'' \<notin> set y"
      by simp_all
    from append_sep_inject [OF this eq] have xy: "x = y"
      and rest: "join_plus (x' # xs) = join_plus (y' # ys')"
      by simp_all
    from "3.prems"(1,2) ys have "\<forall>t \<in> set (x' # xs). CHR ''+'' \<notin> set t"
      "\<forall>t \<in> set (y' # ys'). CHR ''+'' \<notin> set t"
      by simp_all
    from "3.IH" [OF this _ _ rest] have "x' # xs = y' # ys'"
      by simp
    with xy ys show ?thesis by simp
  qed
qed

text \<open>The components of a combination are tables that the search does not skip.\<close>

lemma accumulate_members:
  "accumulate n xs cur chosen = Some (sm, ch) \<Longrightarrow> set ch \<subseteq> set chosen \<union> fst ` set xs"
  by (induction n xs cur chosen rule: accumulate.induct) (auto split: if_splits)

lemma try_starts_members: "try_starts n xs = Some (sm, ch) \<Longrightarrow> set ch \<subseteq> fst ` set xs"
proof (induction n xs rule: try_starts.induct)
  case (1 n)
  then show ?case by simp
next
  case (2 n x xs)
  show ?case
  proof (cases "accumulate n (x # xs) 0 []")
    case None
    with 2 show ?thesis by auto
  next
    case (Some r)
    with "2.prems" have "accumulate n (x # xs) 0 [] = Some (sm, ch)"
      by simp
    from accumulate_members [OF this] show ?thesis by simp
  qed
qed

lemma try_rooms_members:
  "try_rooms n d = Some (rm, sm, ch) \<Longrightarrow> \<exists>es. (rm, es) \<in> set d \<and> set ch \<subseteq> fst ` set es"
proof (induction n d rule: try_rooms.induct)
  case (1 n)
  then show ?case by simp
next
  case (2 n r empty_tables rest)
  show ?case
  proof (cases "try_starts n (sort_key (\<lambda>x. - snd x) empty_tables)")
    case None
    with 2 show ?thesis by auto
  next
    case (Some p)
    with "2.prems" have found: "try_starts n (sort_key (\<lambda>x. - snd x) empty_tables) = Some (sm, ch)"
      and r: "rm = r"
      by (auto split: prod.splits)
    from try_starts_members [OF found] have "set ch \<subseteq> fst ` set empty_tables"
      by simp
    with r show ?thesis by auto
  qed
qed

lemma set_update_subset: "set (AList.update k v d) \<subseteq> insert (k, v) (set d)"
  by (induction d) auto

lemma entries_member: "x \<in> set (entries d r) \<Longrightarrow> \<exists>es. (r, es) \<in> set d \<and> x \<in> set es"
  by (cases "map_of d r") (auto simp: entries_def dest: map_of_SomeD)

lemma empty_tables_by_room_members:
  "(r, es) \<in> set (empty_tables_by_room ts acc) \<Longrightarrow> x \<in> set es \<Longrightarrow>
   (\<exists>es0. (r, es0) \<in> set acc \<and> x \<in> set es0) \<or>
   (\<exists>ti. (fst x, ti) \<in> set ts \<and> \<not> skipped (fst x) ti)"
proof (induction ts acc rule: empty_tables_by_room.induct)
  case (1 acc)
  then show ?case by auto
next
  case (2 table_id ti rest acc)
  show ?case
  proof (cases "skipped table_id ti")
    case True
    with "2.prems" "2.IH"(1) show ?thesis by auto
  next
    case False
    let ?new = "entries acc (room ti) @ [(table_id, capacity ti)]"
    let ?acc = "AList.update (room ti) ?new acc"
    from "2.prems" False have "(r, es) \<in> set (empty_tables_by_room rest ?acc)"
      by simp
    from "2.IH"(2) [OF False this "2.prems"(2)]
    consider es0 where "(r, es0) \<in> set ?acc" "x \<in> set es0"
      | ti' where "(fst x, ti') \<in> set rest" "\<not> skipped (fst x) ti'"
      by blast
    then show ?thesis
    proof cases
      case 1
      from 1(1) set_update_subset [of "room ti" ?new acc]
      have "(r, es0) = (room ti, ?new) \<or> (r, es0) \<in> set acc"
        by auto
      then show ?thesis
      proof
        assume "(r, es0) \<in> set acc"
        with 1(2) show ?thesis by blast
      next
        assume "(r, es0) = (room ti, ?new)"
        with 1(2) have "x \<in> set (entries acc r) \<or> x = (table_id, capacity ti)"
          by auto
        then show ?thesis
        proof
          assume "x \<in> set (entries acc r)"
          from entries_member [OF this] show ?thesis by blast
        next
          assume "x = (table_id, capacity ti)"
          with False show ?thesis by auto
        qed
      qed
    next
      case 2
      then show ?thesis by auto
    qed
  qed
qed

lemma find_best_single_unchanged:
  "fst (find_best_table_for_group s n g) = (tid, False, chosen) \<Longrightarrow>
   snd (find_best_table_for_group s n g) = s"
  by (auto simp: find_best_table_for_group_def Let_def split: option.splits prod.splits)

lemma find_best_combination:
  assumes "fst (find_best_table_for_group s n g) = (tid, True, chosen)"
  shows "\<exists>rm sm ch. chosen = Some ch \<and> tid = Some (join_plus ch) \<and> 2 \<le> length ch \<and>
     (\<forall>t \<in> set ch. \<exists>ti. (t, ti) \<in> set (tables s) \<and> \<not> skipped t ti) \<and>
     tables (snd (find_best_table_for_group s n g)) =
       AList.update (join_plus ch)
         \<lparr>capacity = sm, occupied = True, combined = True, component_tables = Some ch,
          room = rm\<rparr> (fold mark_combined ch (tables s)) \<and>
     combined_tables (snd (find_best_table_for_group s n g)) =
       AList.update (join_plus ch) ch (combined_tables s)"
proof -
  from assms have none: "single_table n (tables s) = None"
    by (auto simp: find_best_table_for_group_def split: option.splits)
  with assms obtain rm sm ch
    where rooms: "try_rooms n (empty_tables_by_room (tables s) []) = Some (rm, sm, ch)"
    by (auto simp: find_best_table_for_group_def Let_def split: option.splits prod.splits)
  from assms none rooms have res: "chosen = Some ch" "tid = Some (join_plus ch)"
    by (simp_all add: find_best_table_for_group_def Let_def)
  have fields: "tables (snd (find_best_table_for_group s n g)) =
       AList.update (join_plus ch)
         \<lparr>capacity = sm, occupied = True, combined = True, component_tables = Some ch,
          room = rm\<rparr> (fold mark_combined ch (tables s))"
    "combined_tables (snd (find_best_table_for_group s n g)) =
       AList.update (join_plus ch) ch (combined_tables s)"
    using none rooms by (simp_all add: find_best_table_for_group_def Let_def)
  from res have "fst (find_best_table_for_group s n g) = (Some (join_plus ch), True, chosen)"
    using assms by simp
  have "\<forall>t ti. (t, ti) \<in> set (tables s) \<and> \<not> skipped t ti \<longrightarrow> capacity ti < n"
    using single_table_none [OF none] by blast
  moreover have "\<forall>r y. y \<in> set (entries [] r) \<longrightarrow> snd y < n"
    by (simp add: entries_def)
  ultimately
  have "\<forall>r. \<forall>x \<in> set (entries (empty_tables_by_room (tables s) []) r). snd x < n"
    using empty_tables_by_room_small [of _ "tables s" "[]" _ n] by blast
  moreover have "distinct (map fst (empty_tables_by_room (tables s) []))"
    by (simp add: empty_tables_by_room_distinct)
  ultimately have two: "2 \<le> length ch"
    using try_rooms_two [OF rooms] by blast
  from try_rooms_members [OF rooms] obtain es
    where es: "(rm, es) \<in> set (empty_tables_by_room (tables s) [])" "set ch \<subseteq> fst ` set es"
    by blast
  have members: "\<forall>t \<in> set ch. \<exists>ti. (t, ti) \<in> set (tables s) \<and> \<not> skipped t ti"
  proof
    fix t assume "t \<in> set ch"
    with es(2) obtain x where x: "x \<in> set es" "t = fst x"
      by auto
    from empty_tables_by_room_members [OF es(1) x(1)] x(2)
    show "\<exists>ti. (t, ti) \<in> set (tables s) \<and> \<not> skipped t ti"
      by auto
  qed
  from res two members fields show ?thesis
    by blast
qed

lemma optimize_group_cases:
  assumes step: "optimize_group (g, gd) (s, log) = (s1, log1)"
    and waiting: "has_key g (groups s)"
  shows "(s1 = s \<and> log1 = log) \<or>
    (\<exists>t. CHR ''+'' \<notin> set t \<and> s1 = do_seat s g (size_g gd) (name gd) t \<and> log1 = log) \<or>
    (\<exists>rm sm ch. 2 \<le> length ch \<and>
       (\<forall>t \<in> set ch. \<exists>ti. (t, ti) \<in> set (tables s) \<and> \<not> skipped t ti) \<and>
       groups s1 = AList.delete g (groups s) \<and>
       seated_groups s1 =
         AList.update g \<lparr>size_g = size_g gd, name = name gd, table = join_plus ch\<rparr>
           (seated_groups s) \<and>
       tables s1 =
         AList.map_entry (join_plus ch) (\<lambda>t. t\<lparr>occupied := True\<rparr>)
           (AList.update (join_plus ch)
              \<lparr>capacity = sm, occupied = True, combined = True, component_tables = Some ch,
               room = rm\<rparr> (fold mark_combined ch (tables s))) \<and>
       combined_tables s1 = AList.update (join_plus ch) ch (combined_tables s) \<and>
       log1 = log @ [\<lparr>msg_tables = Some ch, msg_room = room_of s1 (join_plus ch),
                       msg_group = name gd\<rparr>])"
proof -
  obtain tid is_combined chosen s' where
    fb: "find_best_table_for_group s (size_g gd) g = ((tid, is_combined, chosen), s')"
    by (metis prod.exhaust)
  then have res: "fst (find_best_table_for_group s (size_g gd) g) = (tid, is_combined, chosen)"
    and s': "snd (find_best_table_for_group s (size_g gd) g) = s'"
    by simp_all
  from find_best_frame [of s "size_g gd" g] s'
  have frame: "groups s' = groups s" "seated_groups s' = seated_groups s"
    by simp_all
  show ?thesis
  proof (cases is_combined)
    case False
    with res s' have same: "s' = s"
      by (auto dest: find_best_single_unchanged)
    show ?thesis
    proof (cases "\<exists>t. tid = Some t \<and> t \<noteq> []")
      case no: False
      with step waiting fb same show ?thesis
        by (cases tid) auto
    next
      case True
      then obtain t where t: "tid = Some t" "t \<noteq> []"
        by blast
      with res False have "CHR ''+'' \<notin> set t"
        by (auto dest: find_best_single_plain)
      with step waiting fb same t False show ?thesis
        by auto
    qed
  next
    case True
    with res have "fst (find_best_table_for_group s (size_g gd) g) = (tid, True, chosen)"
      by simp
    from find_best_combination [OF this] s' obtain rm sm ch
      where ch: "chosen = Some ch" "tid = Some (join_plus ch)" "2 \<le> length ch"
        "\<forall>t \<in> set ch. \<exists>ti. (t, ti) \<in> set (tables s) \<and> \<not> skipped t ti"
        and tabs: "tables s' =
          AList.update (join_plus ch)
            \<lparr>capacity = sm, occupied = True, combined = True, component_tables = Some ch,
             room = rm\<rparr> (fold mark_combined ch (tables s))"
        and combs: "combined_tables s' = AList.update (join_plus ch) ch (combined_tables s)"
      by auto
    from ch(3) have "CHR ''+'' \<in> set (join_plus ch)"
      by (rule join_plus_two)
    then have ne: "join_plus ch \<noteq> []"
      by auto
    from step waiting fb ch(1,2) ne True
    have s1: "s1 = do_seat s' g (size_g gd) (name gd) (join_plus ch)"
      and log1: "log1 = log @ [\<lparr>msg_tables = Some ch, msg_room = room_of s1 (join_plus ch),
                       msg_group = name gd\<rparr>]"
      by (auto simp: Let_def)
    from s1 frame tabs combs have
      "groups s1 = AList.delete g (groups s)"
      "seated_groups s1 =
         AList.update g \<lparr>size_g = size_g gd, name = name gd, table = join_plus ch\<rparr>
           (seated_groups s)"
      "tables s1 =
         AList.map_entry (join_plus ch) (\<lambda>t. t\<lparr>occupied := True\<rparr>)
           (AList.update (join_plus ch)
              \<lparr>capacity = sm, occupied = True, combined = True, component_tables = Some ch,
               room = rm\<rparr> (fold mark_combined ch (tables s)))"
      "combined_tables s1 = AList.update (join_plus ch) ch (combined_tables s)"
      by (simp_all add: do_seat_fields)
    with ch(3,4) log1 show ?thesis
      by blast
  qed
qed

lemma room_of_occupied [simp]:
  "room_of (s\<lparr>tables := AList.map_entry t (\<lambda>t. t\<lparr>occupied := True\<rparr>) ts\<rparr>) c =
   room_of (s\<lparr>tables := ts\<rparr>) c"
  by (simp add: room_of_def AList.map_of_map_entry split: option.splits)

text \<open>Seating a group leaves what is read for the other groups as it was.\<close>

lemma do_seat_others:
  assumes "h \<noteq> g"
  shows "has_key h (groups (do_seat s g n nm t)) = has_key h (groups s)"
    and "table_of (do_seat s g n nm t) h = table_of s h"
    and "seated_at_combination (do_seat s g n nm t) h = seated_at_combination s h"
  using assms
  by (simp_all add: do_seat_fields has_key_delete table_of_def seated_at_combination_def
      AList.update_conv')

lemma do_seat_tables:
  "map_of (combined_tables (do_seat s g n nm t)) c = map_of (combined_tables s) c"
  "room_of (do_seat s g n nm t) c = room_of s c"
  "(case map_of (tables (do_seat s g n nm t)) c of None \<Rightarrow> False | Some ti \<Rightarrow> combined ti) =
   (case map_of (tables s) c of None \<Rightarrow> False | Some ti \<Rightarrow> combined ti)"
  by (simp_all add: do_seat_fields room_of_def AList.map_of_map_entry split: option.splits)

lemma do_seat_keeps_report:
  assumes "h \<noteq> g"
  shows "moved_to_combination (do_seat s g n nm t) (h, d) = moved_to_combination s (h, d)"
    and "report (do_seat s g n nm t) (h, d) = report s (h, d)"
    and "recorded (do_seat s g n nm t) h = recorded s h"
  using assms
  by (simp_all add: moved_to_combination_def report_def recorded_def do_seat_others
      do_seat_tables cong: option.case_cong)

lemma do_seat_single:
  "CHR ''+'' \<notin> set t \<Longrightarrow> \<not> moved_to_combination (do_seat s g n nm t) (g, gd)"
  by (simp add: moved_to_combination_def seated_at_combination_def do_seat_fields
      AList.update_conv')

lemma distinct_fold_mark:
  "distinct (map fst ts) \<Longrightarrow> distinct (map fst (fold mark_combined ch ts))"
  by (induction ch arbitrary: ts) (simp_all add: mark_combined_def AList.distinct_map_entry)

lemma do_seat_distinct:
  "distinct (map fst (tables s)) \<Longrightarrow> distinct (map fst (tables (do_seat s g n nm t)))"
  by (simp add: do_seat_fields AList.distinct_map_entry)

text \<open>A new combination is made of tables that are not flagged combined, so it differs
  from every combination recorded with flagged components: what is read for the groups
  seated before stays as it was.\<close>

lemma combination_step:
  fixes s s1 :: planner
  defines "cid \<equiv> \<lambda>ch. join_plus ch"
  assumes two: "2 \<le> length ch"
    and free: "\<forall>t \<in> set ch. \<exists>ti. (t, ti) \<in> set (tables s) \<and> \<not> skipped t ti"
    and keys: "distinct (map fst (tables s))"
    and g1: "groups s1 = AList.delete g (groups s)"
    and sg1: "seated_groups s1 =
         AList.update g \<lparr>size_g = n, name = nm, table = join_plus ch\<rparr> (seated_groups s)"
    and t1: "tables s1 =
         AList.map_entry (join_plus ch) (\<lambda>t. t\<lparr>occupied := True\<rparr>)
           (AList.update (join_plus ch)
              \<lparr>capacity = sm, occupied = True, combined = True, component_tables = Some ch,
               room = rm\<rparr> (fold mark_combined ch (tables s)))"
    and c1: "combined_tables s1 = AList.update (join_plus ch) ch (combined_tables s)"
  shows "distinct (map fst (tables s1))"
    and "moved_to_combination s1 (g, gd)"
    and "report s1 (g, gd) =
           \<lparr>msg_tables = Some ch, msg_room = room_of s1 (join_plus ch), msg_group = name gd\<rparr>"
    and "recorded s1 g"
    and "h \<noteq> g \<Longrightarrow> moved_to_combination s1 (h, d) = moved_to_combination s (h, d)"
    and "h \<noteq> g \<Longrightarrow> recorded s h \<Longrightarrow> report s1 (h, d) = report s (h, d) \<and> recorded s1 h"
proof -
  let ?c = "join_plus ch"
  from two have plus: "CHR ''+'' \<in> set ?c"
    by (rule join_plus_two)
  have comp: "CHR ''+'' \<notin> set t \<and> (\<exists>ti. map_of (tables s) t = Some ti \<and> \<not> combined ti)"
    if "t \<in> set ch" for t
  proof -
    from free that obtain ti where "(t, ti) \<in> set (tables s)" "\<not> skipped t ti"
      by blast
    with keys show ?thesis
      by (auto simp: skipped_def)
  qed
  have look: "map_of (tables s1) c =
      (if c = ?c then Some \<lparr>capacity = sm, occupied = True, combined = True,
                             component_tables = Some ch, room = rm\<rparr>
       else if c \<in> set ch
         then map_option (\<lambda>ti. ti\<lparr>combined := True, occupied := True\<rparr>) (map_of (tables s) c)
         else map_of (tables s) c)" for c
    by (simp add: t1 AList.map_of_map_entry AList.update_conv' map_of_fold_mark)
  have tg: "table_of s1 g = ?c"
    by (simp add: table_of_def sg1 AList.update_conv')
  show "distinct (map fst (tables s1))"
    using keys by (simp add: t1 AList.distinct_map_entry AList.distinct_update distinct_fold_mark)
  show "moved_to_combination s1 (g, gd)"
    using plus
    by (simp add: moved_to_combination_def seated_at_combination_def g1 sg1 has_key_delete
        AList.update_conv')
  show "report s1 (g, gd) =
           \<lparr>msg_tables = Some ch, msg_room = room_of s1 ?c, msg_group = name gd\<rparr>"
    by (simp add: report_def tg c1 AList.update_conv')
  show "recorded s1 g"
  proof -
    have "CHR ''+'' \<notin> set t \<and>
        (case map_of (tables s1) t of None \<Rightarrow> False | Some ti \<Rightarrow> combined ti)"
      if "t \<in> set ch" for t
    proof -
      from comp [OF that] obtain ti where "CHR ''+'' \<notin> set t" "map_of (tables s) t = Some ti"
        by blast
      moreover from this(1) plus have "t \<noteq> ?c"
        by auto
      ultimately show ?thesis
        using that by (simp add: look)
    qed
    with two show ?thesis
      by (simp add: recorded_def tg c1 AList.update_conv')
  qed
  show "moved_to_combination s1 (h, d) = moved_to_combination s (h, d)" if "h \<noteq> g"
    using that
    by (simp add: moved_to_combination_def seated_at_combination_def g1 sg1 has_key_delete
        AList.update_conv')
  show "report s1 (h, d) = report s (h, d) \<and> recorded s1 h" if h: "h \<noteq> g" and rec: "recorded s h"
  proof -
    have th: "table_of s1 h = table_of s h"
      using h by (simp add: table_of_def sg1 AList.update_conv')
    from rec obtain comps where comps: "map_of (combined_tables s) (table_of s h) = Some comps"
      "table_of s h = join_plus comps" "2 \<le> length comps"
      and old: "\<forall>t \<in> set comps. CHR ''+'' \<notin> set t \<and>
             (case map_of (tables s) t of None \<Rightarrow> False | Some ti \<Rightarrow> combined ti)"
      by (auto simp: recorded_def split: option.splits)
    have differ: "join_plus comps \<noteq> ?c"
    proof
      assume eq: "join_plus comps = ?c"
      from comps(3) two have ne: "comps \<noteq> []" "ch \<noteq> []"
        by auto
      from old comp have "\<forall>t \<in> set comps. CHR ''+'' \<notin> set t" "\<forall>t \<in> set ch. CHR ''+'' \<notin> set t"
        by auto
      from join_plus_inject [OF this ne eq] have same: "comps = ch" .
      from ne(2) obtain t where t: "t \<in> set ch"
        by (cases ch) auto
      from comp [OF t] obtain ti where "map_of (tables s) t = Some ti" "\<not> combined ti"
        by blast
      moreover from old t same have
        "case map_of (tables s) t of None \<Rightarrow> False | Some ti \<Rightarrow> combined ti"
        by simp
      ultimately show False by simp
    qed
    from comps(3) have old_plus: "CHR ''+'' \<in> set (join_plus comps)"
      by (rule join_plus_two)
    with comp have outside: "join_plus comps \<notin> set ch"
      by auto
    have c_same: "map_of (combined_tables s1) (table_of s h) =
        map_of (combined_tables s) (table_of s h)"
      using differ comps(2) by (simp add: c1 AList.update_conv')
    have r_same: "room_of s1 (table_of s h) = room_of s (table_of s h)"
      using differ outside comps(2) by (simp add: room_of_def look)
    have flags: "CHR ''+'' \<notin> set t \<and>
        (case map_of (tables s1) t of None \<Rightarrow> False | Some ti \<Rightarrow> combined ti)"
      if "t \<in> set comps" for t
    proof -
      from old that have a: "CHR ''+'' \<notin> set t"
        and b: "case map_of (tables s) t of None \<Rightarrow> False | Some ti \<Rightarrow> combined ti"
        by auto
      from a plus have "t \<noteq> ?c"
        by auto
      with a b show ?thesis
        by (cases "map_of (tables s) t") (simp_all add: look)
    qed
    have "report s1 (h, d) = report s (h, d)"
      by (simp add: report_def th c_same r_same)
    moreover have "map_of (combined_tables s1) (table_of s1 h) = Some comps"
      using th c_same comps(1) by simp
    then have "recorded s1 h"
      using th comps(2,3) flags by (simp add: recorded_def)
    ultimately show ?thesis by simp
  qed
qed

text \<open>So the log of the call is the list of the reports of the groups it has moved to a
  joined identifier, in the order of the loop.\<close>

lemma optimize_group_reports:
  assumes step: "optimize_group (g, gd) (s, log) = (s1, log1)"
    and waiting: "has_key g (groups s)"
    and fresh: "g \<notin> fst ` set pre"
    and keys: "distinct (map fst (tables s))"
    and rec: "\<forall>x \<in> set pre. moved_to_combination s x \<longrightarrow> recorded s (fst x)"
    and log: "log = map (report s) (filter (moved_to_combination s) pre)"
  shows "distinct (map fst (tables s1)) \<and>
         (\<forall>x \<in> set (pre @ [(g, gd)]). moved_to_combination s1 x \<longrightarrow> recorded s1 (fst x)) \<and>
         log1 = map (report s1) (filter (moved_to_combination s1) (pre @ [(g, gd)]))"
proof -
  have still: "\<not> moved_to_combination s (g, gd)"
    using waiting by (simp add: moved_to_combination_def)
  have other: "fst x \<noteq> g" if "x \<in> set pre" for x
    using that fresh by auto
  from optimize_group_cases [OF step waiting]
  consider (none) "s1 = s" "log1 = log"
    | (single) t where "CHR ''+'' \<notin> set t" "s1 = do_seat s g (size_g gd) (name gd) t"
        "log1 = log"
    | (combination) rm sm ch where "2 \<le> length ch"
       "\<forall>t \<in> set ch. \<exists>ti. (t, ti) \<in> set (tables s) \<and> \<not> skipped t ti"
       "groups s1 = AList.delete g (groups s)"
       "seated_groups s1 =
         AList.update g \<lparr>size_g = size_g gd, name = name gd, table = join_plus ch\<rparr>
           (seated_groups s)"
       "tables s1 =
         AList.map_entry (join_plus ch) (\<lambda>t. t\<lparr>occupied := True\<rparr>)
           (AList.update (join_plus ch)
              \<lparr>capacity = sm, occupied = True, combined = True, component_tables = Some ch,
               room = rm\<rparr> (fold mark_combined ch (tables s)))"
       "combined_tables s1 = AList.update (join_plus ch) ch (combined_tables s)"
       "log1 = log @ [\<lparr>msg_tables = Some ch, msg_room = room_of s1 (join_plus ch),
                       msg_group = name gd\<rparr>]"
    by blast
  then show ?thesis
  proof cases
    case none
    with keys rec log still show ?thesis
      by simp
  next
    case single
    have all_same: "moved_to_combination s1 x = moved_to_combination s x \<and>
      report s1 x = report s x \<and> recorded s1 (fst x) = recorded s (fst x)"
      if "x \<in> set pre" for x
    proof -
      obtain h d where x: "x = (h, d)" by (cases x)
      with other [OF that] have "h \<noteq> g" by simp
      from do_seat_keeps_report [OF this] show ?thesis
        unfolding x single(2) by simp
    qed
    then have same: "moved_to_combination s1 x = moved_to_combination s x"
      "report s1 x = report s x" "recorded s1 (fst x) = recorded s (fst x)"
      if "x \<in> set pre" for x
      using that by simp_all
    have new: "\<not> moved_to_combination s1 (g, gd)"
      using single(1,2) by (simp add: do_seat_single)
    have f: "filter (moved_to_combination s1) pre = filter (moved_to_combination s) pre"
      using same(1) by (auto intro: filter_cong)
    have m: "map (report s1) (filter (moved_to_combination s) pre) =
             map (report s) (filter (moved_to_combination s) pre)"
      using same(2) by (auto intro: map_cong)
    have "distinct (map fst (tables s1))"
      using keys single(2) by (simp add: do_seat_distinct)
    moreover have "\<forall>x \<in> set (pre @ [(g, gd)]).
        moved_to_combination s1 x \<longrightarrow> recorded s1 (fst x)"
      using rec same(1,3) new by auto
    moreover have "log1 = map (report s1) (filter (moved_to_combination s1) (pre @ [(g, gd)]))"
      using log single(3) new f m by simp
    ultimately show ?thesis by simp
  next
    case combination
    note facts = combination_step [OF combination(1,2) keys combination(3,4,5,6)]
    have same: "moved_to_combination s1 x = moved_to_combination s x" if "x \<in> set pre" for x
      using facts(5) [OF other [OF that], of "snd x"] by simp
    have kept: "report s1 x = report s x \<and> recorded s1 (fst x)"
      if "x \<in> set pre" "moved_to_combination s x" for x
    proof -
      from rec that have "recorded s (fst x)" by blast
      from facts(6) [OF other [OF that(1)] this, of "snd x"] show ?thesis by simp
    qed
    have f: "filter (moved_to_combination s1) pre = filter (moved_to_combination s) pre"
      using same by (auto intro: filter_cong)
    have m: "map (report s1) (filter (moved_to_combination s) pre) =
             map (report s) (filter (moved_to_combination s) pre)"
      using kept by (auto intro: map_cong)
    have "\<forall>x \<in> set (pre @ [(g, gd)]).
        moved_to_combination s1 x \<longrightarrow> recorded s1 (fst x)"
      using same kept facts(4) by auto
    moreover have "log1 = map (report s1) (filter (moved_to_combination s1) (pre @ [(g, gd)]))"
      using log combination(7) facts(2) [of gd] facts(3) [of gd] f m by simp
    ultimately show ?thesis
      using facts(1) by simp
  qed
qed

lemma fold_optimize_reports:
  "fold optimize_group xs (s, log) = (s', log') \<Longrightarrow>
   distinct (map fst (pre @ xs)) \<Longrightarrow>
   \<forall>x \<in> set xs. has_key (fst x) (groups s) \<Longrightarrow>
   distinct (map fst (tables s)) \<Longrightarrow>
   \<forall>x \<in> set pre. moved_to_combination s x \<longrightarrow> recorded s (fst x) \<Longrightarrow>
   log = map (report s) (filter (moved_to_combination s) pre) \<Longrightarrow>
   log' = map (report s') (filter (moved_to_combination s') (pre @ xs))"
proof (induction xs arbitrary: s log pre)
  case Nil
  then show ?case by auto
next
  case (Cons x xs)
  obtain g gd where x: "x = (g, gd)" by (cases x)
  obtain s1 log1 where step: "optimize_group (g, gd) (s, log) = (s1, log1)"
    by (cases "optimize_group (g, gd) (s, log)")
  with Cons.prems(1) x have rest: "fold optimize_group xs (s1, log1) = (s', log')"
    by simp
  from Cons.prems(2) x have fresh: "g \<notin> fst ` set pre" and later: "g \<notin> fst ` set xs"
    and dist: "distinct (map fst ((pre @ [(g, gd)]) @ xs))"
    by auto
  from Cons.prems(3) x have waiting: "has_key g (groups s)"
    by simp
  have tail: "\<forall>y \<in> set xs. has_key (fst y) (groups s1)"
  proof
    fix y assume y: "y \<in> set xs"
    with later have "fst y \<noteq> g" by auto
    moreover from y Cons.prems(3) have "has_key (fst y) (groups s)" by simp
    ultimately show "has_key (fst y) (groups s1)"
      using optimize_group_step [OF step] by (auto simp: has_key_delete)
  qed
  from optimize_group_reports [OF step waiting fresh Cons.prems(4,5,6)]
  have "distinct (map fst (tables s1))"
    and "\<forall>x \<in> set (pre @ [(g, gd)]). moved_to_combination s1 x \<longrightarrow> recorded s1 (fst x)"
    and "log1 = map (report s1) (filter (moved_to_combination s1) (pre @ [(g, gd)]))"
    by simp_all
  from Cons.IH [OF rest dist tail this] show ?case
    using x by simp
qed

lemma optimize_seating_log:
  assumes "optimize_seating s = (s', msgs)"
    and "distinct (map fst (groups s))" and "distinct (map fst (tables s))"
  shows "msgs = map (report s')
           (filter (moved_to_combination s') (sort_key (\<lambda>x. - size_g (snd x)) (groups s)))"
proof -
  let ?xs = "sort_key (\<lambda>x. - size_g (snd x)) (groups s)"
  from assms(1) have run: "fold optimize_group ?xs (s, []) = (s', msgs)"
    by (simp add: optimize_seating_def)
  from assms(2) have dist: "distinct (map fst ([] @ ?xs))"
    by (simp add: distinct_keys_sort)
  have all: "\<forall>x \<in> set ?xs. has_key (fst x) (groups s)"
    by (auto simp: has_key_iff)
  from fold_optimize_reports [OF run dist all assms(3)] show ?thesis
    by simp
qed

text \<open>A Python dictionary holds every key once.  The association lists of the tables
  and of the waiting groups keep this property under every operation, so it holds at
  every state that the operations reach from the empty planner.\<close>

lemma map_entry_keys: "map fst (AList.map_entry k f d) = map fst d"
  by (induction d) auto

lemma distinct_map_entry_keys:
  "distinct (map fst (AList.map_entry k f d)) = distinct (map fst d)"
  by (simp add: map_entry_keys)

lemma fold_requeue_tables: "tables (fold requeue gs s) = tables s"
  by (induction gs arbitrary: s) (auto simp: requeue_def split: option.splits)

lemma fold_requeue_groups_distinct:
  "distinct (map fst (groups s)) \<Longrightarrow> distinct (map fst (groups (fold requeue gs s)))"
  by (induction gs arbitrary: s) (auto simp: requeue_def distinct_update_keys split: option.splits)

lemma fold_restore_distinct:
  "distinct (map fst (fold restore_component cs ts)) = distinct (map fst ts)"
  by (induction cs arbitrary: ts) (auto simp: restore_component_def distinct_map_entry_keys)

lemma fold_mark_distinct:
  "distinct (map fst (fold mark_combined cs ts)) = distinct (map fst ts)"
  by (induction cs arbitrary: ts) (auto simp: mark_combined_def distinct_map_entry_keys)

lemma find_best_keys_distinct:
  "distinct (map fst (tables s)) \<Longrightarrow>
   distinct (map fst (tables (snd (find_best_table_for_group s n g))))"
  "groups (snd (find_best_table_for_group s n g)) = groups s"
  by (auto simp: find_best_table_for_group_def Let_def distinct_update_keys fold_mark_distinct
      split: option.splits)

lemma do_seat_keys_distinct:
  "distinct (map fst (tables s)) \<Longrightarrow> distinct (map fst (tables (do_seat s g n nm t)))"
  "distinct (map fst (groups s)) \<Longrightarrow> distinct (map fst (groups (do_seat s g n nm t)))"
  by (auto simp: do_seat_def distinct_map_entry_keys distinct_delete)

lemma optimize_group_keys_distinct:
  assumes "distinct (map fst (tables (fst a))) \<and> distinct (map fst (groups (fst a)))"
  shows "distinct (map fst (tables (fst (optimize_group x a)))) \<and>
         distinct (map fst (groups (fst (optimize_group x a))))"
proof -
  obtain g gd where x: "x = (g, gd)" by (cases x)
  obtain s log where a: "a = (s, log)" by (cases a)
  obtain r s1 where f: "find_best_table_for_group s (size_g gd) g = (r, s1)"
    by (cases "find_best_table_for_group s (size_g gd) g")
  have s1: "distinct (map fst (tables s1))" "distinct (map fst (groups s1))"
    using find_best_keys_distinct [of s "size_g gd" g] assms by (simp_all add: f a)
  obtain t c ch where r: "r = (t, c, ch)" by (cases r)
  show ?thesis
    using s1 assms by (cases t) (auto simp: x a f r Let_def do_seat_keys_distinct)
qed

lemma fold_optimize_keys_distinct:
  "distinct (map fst (tables (fst a))) \<and> distinct (map fst (groups (fst a))) \<Longrightarrow>
   distinct (map fst (tables (fst (fold optimize_group xs a)))) \<and>
   distinct (map fst (groups (fst (fold optimize_group xs a))))"
proof (induction xs arbitrary: a)
  case Nil
  then show ?case by simp
next
  case (Cons x xs)
  from Cons.IH [OF optimize_group_keys_distinct [OF Cons.prems]] show ?case by simp
qed

lemma exec_keys_distinct:
  assumes "distinct (map fst (tables s)) \<and> distinct (map fst (groups s))"
  shows "distinct (map fst (tables (exec c s))) \<and> distinct (map fst (groups (exec c s)))"
proof (cases c)
  case (AddTable t cap rm)
  then show ?thesis using assms by (simp add: add_table_def distinct_update_keys)
next
  case (RemoveTable t)
  then show ?thesis using assms
    by (auto simp: remove_table_def Let_def distinct_delete fold_requeue_tables
        fold_requeue_groups_distinct split: option.splits)
next
  case (AddGuests n nm)
  then show ?thesis using assms by (simp add: add_guests_def Let_def distinct_update_keys)
next
  case (SeatGuests g t)
  then show ?thesis using assms
    by (auto simp: seat_guests_def Let_def do_seat_keys_distinct split: option.splits)
next
  case (MarkGroupLeft g)
  then show ?thesis using assms
    by (auto simp: mark_group_left_def Let_def distinct_map_entry_keys distinct_delete
        fold_restore_distinct split: option.splits if_splits)
next
  case (FindBestTable n g)
  then show ?thesis using assms find_best_keys_distinct [of s n g] by simp
next
  case OptimizeSeating
  then show ?thesis
    using fold_optimize_keys_distinct [of "(s, [])"] assms by (simp add: optimize_seating_def)
next
  case (RenameGroup g nm)
  then show ?thesis using assms
    by (auto simp: rename_group_def distinct_map_entry_keys)
qed

lemma fold_exec_keys_distinct:
  "distinct (map fst (tables s)) \<and> distinct (map fst (groups s)) \<Longrightarrow>
   distinct (map fst (tables (fold exec cs s))) \<and> distinct (map fst (groups (fold exec cs s)))"
proof (induction cs arbitrary: s)
  case Nil
  then show ?case by simp
next
  case (Cons c cs)
  from Cons.IH [OF exec_keys_distinct [OF Cons.prems]] show ?case by simp
qed

lemma run_keys_distinct:
  "distinct (map fst (tables (run cs))) \<and> distinct (map fst (groups (run cs)))"
  unfolding run_def by (rule fold_exec_keys_distinct) (simp add: init_def)

text \<open>
  Claim C7 says that \<open>optimize_seating\<close> returns one entry for every group it newly
  seats.  It returns nothing, and the one thing it gives out, the message log, stays
  empty when the group is seated at a single table.
\<close>

theorem optimize_seating_silent_counterexample:
  "has_key 1 (groups (run [AddTable ''T2'' 4 ''GREENROOM'', AddGuests 3 None])) \<and>
   \<not> has_key 1 (seated_groups (run [AddTable ''T2'' 4 ''GREENROOM'', AddGuests 3 None])) \<and>
   map_of (seated_groups (fst (optimize_seating
       (run [AddTable ''T2'' 4 ''GREENROOM'', AddGuests 3 None])))) 1
     = Some \<lparr>size_g = 3, name = ''Group 1'', table = ''T2''\<rparr> \<and>
   snd (optimize_seating (run [AddTable ''T2'' 4 ''GREENROOM'', AddGuests 3 None])) = []"
  by code_simp

text \<open>
  Claim C7, amended.  \<open>optimize_seating\<close> returns no value; the groups it newly seats
  are recorded in the planner.  A group leaves the waiting dictionary during the call
  only by being stored in the seated dictionary, with the size and name of its waiting
  record and the identifier of a registered table; the seated records of all other
  groups are as before.  Every message the call logs names a group that the call has
  newly seated and the list of components whose join is the identifier of that group's
  table, a recorded combination.  With distinct keys in the waiting dictionary and in
  the table dictionary, and so at every state that the operations reach from the empty
  planner, the log of the call is exactly this list: the waiting groups in the order of
  the loop (size descending, equal sizes in dictionary order), those of them that the
  call has moved to a joined identifier (one with a plus sign), and for each of these
  one message, with the components recorded for the group's table, the room of that
  table and the group's name.  A group seated at an identifier without a plus sign, a
  single table, gets none.
\<close>

theorem optimize_seating_reports:
  assumes "optimize_seating s = (s', msgs)"
  shows "(\<forall>g. has_key g (groups s') \<longrightarrow> has_key g (groups s)) \<and>
         (\<forall>g. has_key g (groups s) \<and> \<not> has_key g (groups s') \<longrightarrow>
            (\<exists>gd t. (g, gd) \<in> set (groups s) \<and>
               map_of (seated_groups s') g =
                 Some \<lparr>size_g = size_g gd, name = name gd, table = t\<rparr> \<and>
               has_key t (tables s'))) \<and>
         (\<forall>g. has_key g (groups s') \<or> \<not> has_key g (groups s) \<longrightarrow>
            map_of (seated_groups s') g = map_of (seated_groups s) g) \<and>
         (\<forall>m \<in> set msgs. \<exists>g gd comps. (g, gd) \<in> set (groups s) \<and>
            has_key g (groups s) \<and> \<not> has_key g (groups s') \<and>
            msg_group m = name gd \<and> msg_tables m = Some comps \<and>
            map_of (seated_groups s') g =
              Some \<lparr>size_g = size_g gd, name = name gd, table = join_plus comps\<rparr> \<and>
            has_key (join_plus comps) (combined_tables s')) \<and>
         (distinct (map fst (groups s)) \<and> distinct (map fst (tables s)) \<longrightarrow>
            msgs = map (report s')
                     (filter (moved_to_combination s')
                        (sort_key (\<lambda>x. - size_g (snd x)) (groups s)))) \<and>
         (\<forall>cs. s = run cs \<longrightarrow>
            msgs = map (report s')
                     (filter (moved_to_combination s')
                        (sort_key (\<lambda>x. - size_g (snd x)) (groups s))))"
proof -
  let ?xs = "sort_key (\<lambda>x. - size_g (snd x)) (groups s)"
  from assms have run: "fold optimize_group ?xs (s, []) = (s', msgs)"
    by (simp add: optimize_seating_def)
  have snapshot: "set ?xs = set (groups s)"
    by simp
  have "\<forall>g. has_key g (groups s') \<longrightarrow> has_key g (groups s)"
    using fold_optimize_shrinks [OF run] by blast
  moreover have "\<forall>g. has_key g (groups s) \<and> \<not> has_key g (groups s') \<longrightarrow>
            (\<exists>gd t. (g, gd) \<in> set (groups s) \<and>
               map_of (seated_groups s') g =
                 Some \<lparr>size_g = size_g gd, name = name gd, table = t\<rparr> \<and>
               has_key t (tables s'))"
    using fold_optimize_seats [OF run] unfolding snapshot by blast
  moreover have "\<forall>g. has_key g (groups s') \<or> \<not> has_key g (groups s) \<longrightarrow>
            map_of (seated_groups s') g = map_of (seated_groups s) g"
    using fold_optimize_others [OF run] by blast
  moreover have "\<forall>m \<in> set msgs. \<exists>g gd comps. (g, gd) \<in> set (groups s) \<and>
            has_key g (groups s) \<and> \<not> has_key g (groups s') \<and>
            msg_group m = name gd \<and> msg_tables m = Some comps \<and>
            map_of (seated_groups s') g =
              Some \<lparr>size_g = size_g gd, name = name gd, table = join_plus comps\<rparr> \<and>
            has_key (join_plus comps) (combined_tables s')"
    using fold_optimize_logs [OF run] unfolding snapshot by simp
  moreover have "distinct (map fst (groups s)) \<and> distinct (map fst (tables s)) \<longrightarrow>
            msgs = map (report s')
                     (filter (moved_to_combination s')
                        (sort_key (\<lambda>x. - size_g (snd x)) (groups s)))"
    using optimize_seating_log [OF assms] by blast
  moreover have "\<forall>cs. s = run cs \<longrightarrow>
            msgs = map (report s')
                     (filter (moved_to_combination s')
                        (sort_key (\<lambda>x. - size_g (snd x)) (groups s)))"
    using optimize_seating_log [OF assms] run_keys_distinct by blast
  ultimately show ?thesis by blast
qed

theorem optimize_seating_reports_witness:
  "snd (optimize_seating (run [AddTable ''T4'' 4 ''RESTAURANT'', AddTable ''T1A'' 2 ''GREENROOM'',
          AddTable ''T1B'' 2 ''GREENROOM'', AddGuests 3 None, AddGuests 4 None]))
     = [\<lparr>msg_tables = Some [''T1A'', ''T1B''], msg_room = ''GREENROOM'',
          msg_group = ''Group 1''\<rparr>] \<and>
   (\<exists>g gd comps.
      (g, gd) \<in> set (groups (run [AddTable ''T4'' 4 ''RESTAURANT'',
          AddTable ''T1A'' 2 ''GREENROOM'', AddTable ''T1B'' 2 ''GREENROOM'', AddGuests 3 None,
          AddGuests 4 None])) \<and>
      ''Group 1'' = name gd \<and> Some [''T1A'', ''T1B''] = Some comps \<and>
      map_of (seated_groups (fst (optimize_seating (run [AddTable ''T4'' 4 ''RESTAURANT'',
          AddTable ''T1A'' 2 ''GREENROOM'', AddTable ''T1B'' 2 ''GREENROOM'', AddGuests 3 None,
          AddGuests 4 None])))) g
        = Some \<lparr>size_g = size_g gd, name = name gd, table = join_plus comps\<rparr>) \<and>
   map_of (seated_groups (fst (optimize_seating (run [AddTable ''T4'' 4 ''RESTAURANT'',
          AddTable ''T1A'' 2 ''GREENROOM'', AddTable ''T1B'' 2 ''GREENROOM'', AddGuests 3 None,
          AddGuests 4 None])))) 2
     = Some \<lparr>size_g = 4, name = ''Group 2'', table = ''T4''\<rparr> \<and>
   distinct (map fst (groups (run [AddTable ''T4'' 4 ''RESTAURANT'',
          AddTable ''T1A'' 2 ''GREENROOM'', AddTable ''T1B'' 2 ''GREENROOM'', AddGuests 3 None,
          AddGuests 4 None]))) \<and>
   distinct (map fst (tables (run [AddTable ''T4'' 4 ''RESTAURANT'',
          AddTable ''T1A'' 2 ''GREENROOM'', AddTable ''T1B'' 2 ''GREENROOM'', AddGuests 3 None,
          AddGuests 4 None]))) \<and>
   map (report (fst (optimize_seating (run [AddTable ''T4'' 4 ''RESTAURANT'',
          AddTable ''T1A'' 2 ''GREENROOM'', AddTable ''T1B'' 2 ''GREENROOM'', AddGuests 3 None,
          AddGuests 4 None]))))
     (filter (moved_to_combination (fst (optimize_seating (run [AddTable ''T4'' 4 ''RESTAURANT'',
          AddTable ''T1A'' 2 ''GREENROOM'', AddTable ''T1B'' 2 ''GREENROOM'', AddGuests 3 None,
          AddGuests 4 None]))))
        (sort_key (\<lambda>x. - size_g (snd x)) (groups (run [AddTable ''T4'' 4 ''RESTAURANT'',
          AddTable ''T1A'' 2 ''GREENROOM'', AddTable ''T1B'' 2 ''GREENROOM'', AddGuests 3 None,
          AddGuests 4 None]))))
     = [\<lparr>msg_tables = Some [''T1A'', ''T1B''], msg_room = ''GREENROOM'',
          msg_group = ''Group 1''\<rparr>]"
proof -
  let ?s = "run [AddTable ''T4'' 4 ''RESTAURANT'', AddTable ''T1A'' 2 ''GREENROOM'',
                 AddTable ''T1B'' 2 ''GREENROOM'', AddGuests 3 None, AddGuests 4 None]"
  let ?m = "\<lparr>msg_tables = Some [''T1A'', ''T1B''], msg_room = ''GREENROOM'',
             msg_group = ''Group 1''\<rparr>"
  have call: "optimize_seating ?s = (fst (optimize_seating ?s), snd (optimize_seating ?s))"
    by simp
  have msgs: "snd (optimize_seating ?s) = [?m]"
    by code_simp
  have second: "map_of (seated_groups (fst (optimize_seating ?s))) 2 =
      Some \<lparr>size_g = 4, name = ''Group 2'', table = ''T4''\<rparr>"
    by code_simp
  from optimize_seating_reports [OF call]
  have "\<forall>m \<in> set (snd (optimize_seating ?s)). \<exists>g gd comps. (g, gd) \<in> set (groups ?s) \<and>
      has_key g (groups ?s) \<and> \<not> has_key g (groups (fst (optimize_seating ?s))) \<and>
      msg_group m = name gd \<and> msg_tables m = Some comps \<and>
      map_of (seated_groups (fst (optimize_seating ?s))) g =
        Some \<lparr>size_g = size_g gd, name = name gd, table = join_plus comps\<rparr> \<and>
      has_key (join_plus comps) (combined_tables (fst (optimize_seating ?s)))"
    by (elim conjE)
  then have "\<exists>g gd comps. (g, gd) \<in> set (groups ?s) \<and>
      has_key g (groups ?s) \<and> \<not> has_key g (groups (fst (optimize_seating ?s))) \<and>
      msg_group ?m = name gd \<and> msg_tables ?m = Some comps \<and>
      map_of (seated_groups (fst (optimize_seating ?s))) g =
        Some \<lparr>size_g = size_g gd, name = name gd, table = join_plus comps\<rparr> \<and>
      has_key (join_plus comps) (combined_tables (fst (optimize_seating ?s)))"
    unfolding msgs by simp
  then obtain g gd comps where "(g, gd) \<in> set (groups ?s)" "msg_group ?m = name gd"
    "msg_tables ?m = Some comps"
    "map_of (seated_groups (fst (optimize_seating ?s))) g =
        Some \<lparr>size_g = size_g gd, name = name gd, table = join_plus comps\<rparr>"
    by blast
  then have "\<exists>g gd comps. (g, gd) \<in> set (groups ?s) \<and> ''Group 1'' = name gd \<and>
      Some [''T1A'', ''T1B''] = Some comps \<and>
      map_of (seated_groups (fst (optimize_seating ?s))) g =
        Some \<lparr>size_g = size_g gd, name = name gd, table = join_plus comps\<rparr>"
    by (intro exI [of _ g] exI [of _ gd] exI [of _ comps]) simp
  moreover have keys: "distinct (map fst (groups ?s)) \<and> distinct (map fst (tables ?s))"
    by code_simp
  from optimize_seating_reports [OF call]
  have "distinct (map fst (groups ?s)) \<and> distinct (map fst (tables ?s)) \<longrightarrow>
      snd (optimize_seating ?s) =
      map (report (fst (optimize_seating ?s)))
        (filter (moved_to_combination (fst (optimize_seating ?s)))
           (sort_key (\<lambda>x. - size_g (snd x)) (groups ?s)))"
    by (elim conjE)
  from this keys have "snd (optimize_seating ?s) =
      map (report (fst (optimize_seating ?s)))
        (filter (moved_to_combination (fst (optimize_seating ?s)))
           (sort_key (\<lambda>x. - size_g (snd x)) (groups ?s)))"
    by (rule mp)
  moreover from optimize_seating_reports [OF call]
  have "\<forall>cs. ?s = run cs \<longrightarrow>
      snd (optimize_seating ?s) =
      map (report (fst (optimize_seating ?s)))
        (filter (moved_to_combination (fst (optimize_seating ?s)))
           (sort_key (\<lambda>x. - size_g (snd x)) (groups ?s)))"
    by (elim conjE)
  from this [rule_format, OF refl]
  have "map (report (fst (optimize_seating ?s)))
        (filter (moved_to_combination (fst (optimize_seating ?s)))
           (sort_key (\<lambda>x. - size_g (snd x)) (groups ?s))) = [?m]"
    unfolding msgs by simp
  ultimately show ?thesis
    using msgs second keys by simp
qed

subsection \<open>The occupied flag follows the assignment list\<close>

text \<open>
  Claim C2 says that a table is flagged occupied exactly when a group is listed under
  it, for every table at every reachable state.  \<open>find_best_table_for_group\<close> flags
  the components of a combination occupied and lists the group under the combined
  identifier only: after the optimizer has combined \<open>A\<close>, \<open>B\<close> and \<open>C\<close>, table \<open>B\<close> is
  flagged occupied and no group is listed under it.
\<close>

theorem component_flag_counterexample:
  "map_of (tables (run [AddTable ''A'' 2 ''R'', AddTable ''B'' 2 ''R'', AddTable ''C'' 2 ''R'',
        AddGuests 5 None, OptimizeSeating])) ''B''
     = Some \<lparr>capacity = 2, occupied = True, combined = True, component_tables = None,
             room = ''R''\<rparr> \<and>
   listed (assignments (run [AddTable ''A'' 2 ''R'', AddTable ''B'' 2 ''R'',
        AddTable ''C'' 2 ''R'', AddGuests 5 None, OptimizeSeating])) ''B'' = []"
  by code_simp

lemma occupied_listed_iff:
  "occupied_listed s \<longleftrightarrow>
     (\<forall>t ti. map_of (tables s) t = Some ti \<longrightarrow>
        combined ti \<or> listed (assignments s) t \<noteq> [] \<or> \<not> occupied ti)"
proof
  assume a: "occupied_listed s"
  show "\<forall>t ti. map_of (tables s) t = Some ti \<longrightarrow>
        combined ti \<or> listed (assignments s) t \<noteq> [] \<or> \<not> occupied ti"
  proof (intro allI impI)
    fix t ti
    assume m: "map_of (tables s) t = Some ti"
    then have "t \<in> set (map fst (tables s))"
      by (auto dest: map_of_SomeD intro: rev_image_eqI)
    with a m show "combined ti \<or> listed (assignments s) t \<noteq> [] \<or> \<not> occupied ti"
      by (auto simp: occupied_listed_def)
  qed
next
  assume "\<forall>t ti. map_of (tables s) t = Some ti \<longrightarrow>
        combined ti \<or> listed (assignments s) t \<noteq> [] \<or> \<not> occupied ti"
  then show "occupied_listed s"
    by (auto simp: occupied_listed_def split: option.splits)
qed

lemma listed_occupied_iff:
  "listed_occupied s \<longleftrightarrow>
     (\<forall>t ti. map_of (tables s) t = Some ti \<longrightarrow>
        combined ti \<or> occupied ti \<or> listed (assignments s) t = [])"
proof
  assume a: "listed_occupied s"
  show "\<forall>t ti. map_of (tables s) t = Some ti \<longrightarrow>
        combined ti \<or> occupied ti \<or> listed (assignments s) t = []"
  proof (intro allI impI)
    fix t ti
    assume m: "map_of (tables s) t = Some ti"
    then have "t \<in> set (map fst (tables s))"
      by (auto dest: map_of_SomeD intro: rev_image_eqI)
    with a m show "combined ti \<or> occupied ti \<or> listed (assignments s) t = []"
      by (auto simp: listed_occupied_def)
  qed
next
  assume "\<forall>t ti. map_of (tables s) t = Some ti \<longrightarrow>
        combined ti \<or> occupied ti \<or> listed (assignments s) t = []"
  then show "listed_occupied s"
    by (auto simp: listed_occupied_def split: option.splits)
qed

lemmas flag_iffs = occupied_listed_iff listed_occupied_iff

lemma flags_init: "occupied_listed init" "listed_occupied init"
  by (simp_all add: occupied_listed_def listed_occupied_def init_def)

lemma occupied_listed_add_table: "occupied_listed s \<Longrightarrow> occupied_listed (add_table s t c r)"
  by (auto simp: flag_iffs add_table_def AList.update_conv' split: if_splits)

lemma listed_occupied_add_table:
  "listed_occupied s \<Longrightarrow> listed (assignments s) t = [] \<Longrightarrow> listed_occupied (add_table s t c r)"
  by (auto simp: flag_iffs add_table_def AList.update_conv' split: if_splits)

lemma flags_remove_table:
  "occupied_listed s \<Longrightarrow> occupied_listed (remove_table s t)"
  "listed_occupied s \<Longrightarrow> listed_occupied (remove_table s t)"
  by (auto simp: flag_iffs remove_table_def Let_def AList.delete_conv' listed_delete
      split: option.splits if_splits)

lemma flags_add_guests:
  "occupied_listed s \<Longrightarrow> occupied_listed (snd (add_guests s n nm))"
  "listed_occupied s \<Longrightarrow> listed_occupied (snd (add_guests s n nm))"
  by (simp_all add: flag_iffs add_guests_def Let_def)

lemma flags_rename_group:
  "occupied_listed s \<Longrightarrow> occupied_listed (snd (rename_group s g nm))"
  "listed_occupied s \<Longrightarrow> listed_occupied (snd (rename_group s g nm))"
  by (simp_all add: flag_iffs rename_group_def)

lemma flags_do_seat:
  "occupied_listed s \<Longrightarrow> occupied_listed (do_seat s g n nm t)"
  "listed_occupied s \<Longrightarrow> listed_occupied (do_seat s g n nm t)"
  by (auto simp: flag_iffs do_seat_def AList.map_of_map_entry listed_update
      split: option.splits if_splits)

lemma flags_touch:
  "occupied_listed (s\<lparr>assignments := touch t (assignments s)\<rparr>) = occupied_listed s"
  "listed_occupied (s\<lparr>assignments := touch t (assignments s)\<rparr>) = listed_occupied s"
  by (simp_all add: flag_iffs)

lemma flags_seat_guests:
  "occupied_listed s \<Longrightarrow> occupied_listed (snd (seat_guests s g t))"
  "listed_occupied s \<Longrightarrow> listed_occupied (snd (seat_guests s g t))"
  by (auto simp: seat_guests_def Let_def flags_touch flags_do_seat split: option.splits)

lemma flags_find_best:
  "occupied_listed s \<Longrightarrow> occupied_listed (snd (find_best_table_for_group s n g))"
  "listed_occupied s \<Longrightarrow> listed_occupied (snd (find_best_table_for_group s n g))"
  by (auto simp: flag_iffs find_best_table_for_group_def Let_def AList.update_conv'
      map_of_fold_mark listed_update split: option.splits prod.splits if_splits)

lemma occupied_listed_optimize_group:
  assumes inv: "occupied_listed s"
  shows "occupied_listed (fst (optimize_group x (s, log)))"
proof -
  obtain g gd where x: "x = (g, gd)" by (cases x)
  obtain tid is_combined chosen s' where
    fb: "find_best_table_for_group s (size_g gd) g = ((tid, is_combined, chosen), s')"
    by (metis prod.exhaust)
  from flags_find_best(1) [OF inv, of "size_g gd" g] fb have "occupied_listed s'"
    by simp
  with inv fb x show ?thesis
    by (cases tid) (simp_all add: flags_do_seat Let_def)
qed

lemma listed_occupied_optimize_group:
  assumes inv: "listed_occupied s"
  shows "listed_occupied (fst (optimize_group x (s, log)))"
proof -
  obtain g gd where x: "x = (g, gd)" by (cases x)
  obtain tid is_combined chosen s' where
    fb: "find_best_table_for_group s (size_g gd) g = ((tid, is_combined, chosen), s')"
    by (metis prod.exhaust)
  from flags_find_best(2) [OF inv, of "size_g gd" g] fb have "listed_occupied s'"
    by simp
  with inv fb x show ?thesis
    by (cases tid) (simp_all add: flags_do_seat Let_def)
qed

lemma occupied_listed_fold_optimize:
  "occupied_listed (fst p) \<Longrightarrow> occupied_listed (fst (fold optimize_group xs p))"
proof (induction xs arbitrary: p)
  case Nil
  then show ?case by simp
next
  case (Cons x xs)
  obtain s log where p: "p = (s, log)" by (cases p)
  with Cons.prems have "occupied_listed (fst (optimize_group x p))"
    by (simp add: occupied_listed_optimize_group)
  then show ?case
    by (simp add: Cons.IH)
qed

lemma listed_occupied_fold_optimize:
  "listed_occupied (fst p) \<Longrightarrow> listed_occupied (fst (fold optimize_group xs p))"
proof (induction xs arbitrary: p)
  case Nil
  then show ?case by simp
next
  case (Cons x xs)
  obtain s log where p: "p = (s, log)" by (cases p)
  with Cons.prems have "listed_occupied (fst (optimize_group x p))"
    by (simp add: listed_occupied_optimize_group)
  then show ?case
    by (simp add: Cons.IH)
qed

lemma flags_optimize_seating:
  "occupied_listed s \<Longrightarrow> occupied_listed (fst (optimize_seating s))"
  "listed_occupied s \<Longrightarrow> listed_occupied (fst (optimize_seating s))"
  by (simp_all add: optimize_seating_def occupied_listed_fold_optimize
      listed_occupied_fold_optimize)

lemma seated_frame:
  "occupied_listed (s'\<lparr>seated_groups := x\<rparr>) = occupied_listed s'"
  "listed_occupied (s'\<lparr>seated_groups := x\<rparr>) = listed_occupied s'"
  by (simp_all add: flag_iffs)

lemma occupied_listed_mark_group_left:
  assumes inv: "occupied_listed s"
  shows "occupied_listed (snd (mark_group_left s g))"
proof (cases "map_of (seated_groups s) g")
  case None
  with inv show ?thesis
    by (simp add: mark_group_left_def)
next
  case (Some sg)
  let ?t = "table sg"
  let ?rest = "remove1 g (listed (assignments s) ?t)"
  show ?thesis
  proof (cases "has_key ?t (assignments s) \<and> g \<in> set (listed (assignments s) ?t)")
    case False
    with Some inv show ?thesis
      by (auto simp: mark_group_left_def Let_def seated_frame)
  next
    case True
    let ?s1 = "s\<lparr>assignments := AList.update ?t ?rest (assignments s)\<rparr>"
    show ?thesis
    proof (cases "?rest = []")
      case False
      from inv False have "occupied_listed ?s1"
        by (auto simp: flag_iffs listed_update)
      with Some True False show ?thesis
        by (simp add: mark_group_left_def Let_def seated_frame)
    next
      case empty: True
      show ?thesis
      proof (cases "has_key ?t (tables s)")
        case False
        then have "map_of (tables s) ?t = None"
          by (simp add: has_key_def)
        with inv have "occupied_listed ?s1"
          by (auto simp: flag_iffs listed_update)
        with Some True empty False show ?thesis
          by (simp add: mark_group_left_def Let_def)
      next
        case reg: True
        let ?s2 = "?s1\<lparr>tables := AList.map_entry ?t (\<lambda>t. t\<lparr>occupied := False\<rparr>) (tables s)\<rparr>"
        from inv empty have s2: "occupied_listed ?s2"
          by (auto simp: flag_iffs listed_update AList.map_of_map_entry
              split: option.splits if_splits)
        show ?thesis
        proof (cases "CHR ''+'' \<in> set ?t \<and> map_of (combined_tables s) ?t \<noteq> None")
          case False
          with Some True empty reg s2 show ?thesis
            by (auto simp: mark_group_left_def Let_def seated_frame)
        next
          case plus: True
          then obtain comps where comb: "map_of (combined_tables s) ?t = Some comps"
            by auto
          let ?s3 = "?s2\<lparr>tables := AList.delete ?t
                               (fold restore_component comps (tables ?s2)),
                           combined_tables := AList.delete ?t (combined_tables ?s2),
                           assignments := AList.delete ?t (assignments ?s2)\<rparr>"
          from s2 have "occupied_listed ?s3"
            by (auto simp: flag_iffs listed_update listed_delete AList.delete_conv'
                map_of_fold_restore AList.map_of_map_entry split: option.splits if_splits)
          with Some True empty reg plus comb show ?thesis
            by (simp add: mark_group_left_def Let_def seated_frame)
        qed
      qed
    qed
  qed
qed

lemma remove1_last: "g \<in> set xs \<Longrightarrow> remove1 g xs = [] \<Longrightarrow> xs = [g]"
  by (cases xs) (auto split: if_splits)

lemma listed_occupied_mark_group_left:
  assumes inv: "listed_occupied s" and adm: "admissible s (MarkGroupLeft g)"
  shows "listed_occupied (snd (mark_group_left s g))"
proof (cases "map_of (seated_groups s) g")
  case None
  with inv show ?thesis
    by (simp add: mark_group_left_def)
next
  case (Some sg)
  let ?t = "table sg"
  let ?rest = "remove1 g (listed (assignments s) ?t)"
  show ?thesis
  proof (cases "has_key ?t (assignments s) \<and> g \<in> set (listed (assignments s) ?t)")
    case False
    with Some inv show ?thesis
      by (auto simp: mark_group_left_def Let_def seated_frame)
  next
    case True
    then have listed_ne: "listed (assignments s) ?t \<noteq> []"
      by auto
    let ?s1 = "s\<lparr>assignments := AList.update ?t ?rest (assignments s)\<rparr>"
    show ?thesis
    proof (cases "?rest = []")
      case False
      from inv listed_ne have "listed_occupied ?s1"
        by (auto simp: flag_iffs listed_update)
      with Some True False show ?thesis
        by (simp add: mark_group_left_def Let_def seated_frame)
    next
      case empty: True
      with True have only: "listed (assignments s) ?t = [g]"
        by (simp add: remove1_last)
      show ?thesis
      proof (cases "has_key ?t (tables s)")
        case False
        then have "map_of (tables s) ?t = None"
          by (simp add: has_key_def)
        with inv have "listed_occupied ?s1"
          by (auto simp: flag_iffs listed_update)
        with Some True empty False show ?thesis
          by (simp add: mark_group_left_def Let_def)
      next
        case reg: True
        let ?s2 = "?s1\<lparr>tables := AList.map_entry ?t (\<lambda>t. t\<lparr>occupied := False\<rparr>) (tables s)\<rparr>"
        from inv empty have s2: "listed_occupied ?s2"
          by (auto simp: flag_iffs listed_update AList.map_of_map_entry
              split: option.splits if_splits)
        show ?thesis
        proof (cases "CHR ''+'' \<in> set ?t \<and> map_of (combined_tables s) ?t \<noteq> None")
          case False
          with Some True empty reg s2 show ?thesis
            by (auto simp: mark_group_left_def Let_def seated_frame)
        next
          case plus: True
          then obtain comps where comb: "map_of (combined_tables s) ?t = Some comps"
            by auto
          with adm Some plus only reg
          have lists: "\<forall>c \<in> set comps.
              c = ?t \<or> map_of (tables s) c = None \<or> listed (assignments s) c = []"
            by (auto simp: has_key_def)
          let ?s3 = "?s2\<lparr>tables := AList.delete ?t
                               (fold restore_component comps (tables ?s2)),
                           combined_tables := AList.delete ?t (combined_tables ?s2),
                           assignments := AList.delete ?t (assignments ?s2)\<rparr>"
          from s2 lists have "listed_occupied ?s3"
            by (auto simp: flag_iffs listed_update listed_delete AList.delete_conv'
                map_of_fold_restore AList.map_of_map_entry split: option.splits if_splits)
          with Some True empty reg plus comb show ?thesis
            by (simp add: mark_group_left_def Let_def seated_frame)
        qed
      qed
    qed
  qed
qed

text \<open>The hypothesis of admissibility cannot be dropped: a call that is not admissible
  leaves a table with a group listed under it and a clear flag.\<close>

lemma add_table_breaks:
  assumes "listed (assignments s) t \<noteq> []"
  shows "\<not> listed_occupied (add_table s t c r)"
proof -
  have "map_of (tables (add_table s t c r)) t =
      Some \<lparr>capacity = c, occupied = False, combined = False, component_tables = None,
            room = r\<rparr>"
    by (simp add: add_table_def AList.update_conv')
  moreover have "listed (assignments (add_table s t c r)) t \<noteq> []"
    using assms by (simp add: add_table_def)
  ultimately show ?thesis
    unfolding listed_occupied_iff by fastforce
qed

lemma mark_group_left_breaks:
  assumes "\<not> admissible s (MarkGroupLeft g)"
  shows "\<not> listed_occupied (snd (mark_group_left s g))"
proof -
  from assms obtain sg comps c
    where sg: "map_of (seated_groups s) g = Some sg"
      and comb: "map_of (combined_tables s) (table sg) = Some comps"
      and plus: "CHR ''+'' \<in> set (table sg)"
      and only: "listed (assignments s) (table sg) = [g]"
      and reg: "has_key (table sg) (tables s)"
      and c: "c \<in> set comps" "c \<noteq> table sg" "has_key c (tables s)"
             "listed (assignments s) c \<noteq> []"
    by (auto split: option.splits)
  let ?t = "table sg"
  from only have key: "has_key ?t (assignments s)"
    by (auto simp: listed_def has_key_def split: option.splits)
  from c(3) obtain ti where ti: "map_of (tables s) c = Some ti"
    by (auto simp: has_key_def)
  let ?s' = "snd (mark_group_left s g)"
  have "map_of (tables ?s') c = Some (ti\<lparr>occupied := False, combined := False\<rparr>)"
    using sg comb plus only reg key c(1,2) ti
    by (simp add: mark_group_left_def Let_def AList.delete_conv' map_of_fold_restore
        AList.map_of_map_entry)
  moreover have "listed (assignments ?s') c = listed (assignments s) c"
    using sg comb plus only reg key c(2)
    by (simp add: mark_group_left_def Let_def listed_delete listed_update)
  ultimately show ?thesis
    unfolding listed_occupied_iff using c(4) by fastforce
qed

lemma exec_occupied_listed: "occupied_listed s \<Longrightarrow> occupied_listed (exec cmd s)"
  by (cases cmd)
     (simp_all add: occupied_listed_add_table flags_remove_table flags_add_guests
        flags_seat_guests occupied_listed_mark_group_left flags_find_best
        flags_optimize_seating flags_rename_group)

lemma exec_listed_occupied:
  "listed_occupied s \<Longrightarrow> admissible s cmd \<Longrightarrow> listed_occupied (exec cmd s)"
  by (cases cmd)
     (simp_all add: listed_occupied_add_table flags_remove_table flags_add_guests
        flags_seat_guests listed_occupied_mark_group_left flags_find_best
        flags_optimize_seating flags_rename_group)

lemma exec_breaks: "\<not> admissible s cmd \<Longrightarrow> \<not> listed_occupied (exec cmd s)"
  by (cases cmd) (simp_all add: add_table_breaks mark_group_left_breaks)

lemma fold_exec_occupied_listed:
  "occupied_listed s \<Longrightarrow> occupied_listed (fold exec cs s)"
  by (induction cs arbitrary: s) (simp_all add: exec_occupied_listed)

lemma fold_exec_listed_occupied:
  "listed_occupied s \<Longrightarrow> admissible_from s cs \<Longrightarrow> listed_occupied (fold exec cs s)"
  by (induction cs arbitrary: s) (simp_all add: exec_listed_occupied)

text \<open>
  Claim C2, amended.  For the tables that are not flagged combined.  A table flagged
  occupied has a group listed under it: this holds after every sequence of calls on a
  new planner, and every call keeps it.  A table with a group listed under it is
  flagged occupied: this holds in a new planner, every admissible call keeps it, and
  so it holds after every sequence of admissible calls on a new planner.  The calls
  that are not admissible are \<open>add_table\<close> on an identifier with a group listed under
  it, and \<open>mark_group_left\<close> breaking a combination that has a group listed under a
  registered component.
\<close>

theorem flag_and_list_invariants:
  "occupied_listed (run cs) \<and>
   (occupied_listed s \<longrightarrow> occupied_listed (exec cmd s)) \<and>
   listed_occupied init \<and>
   (listed_occupied s \<and> admissible s cmd \<longrightarrow> listed_occupied (exec cmd s)) \<and>
   (admissible_from init cs \<longrightarrow> listed_occupied (run cs))"
  by (simp add: run_def flags_init fold_exec_occupied_listed exec_occupied_listed
      exec_listed_occupied fold_exec_listed_occupied)

theorem flag_and_list_invariants_witness:
  "occupied_listed (run [AddTable ''A'' 4 ''R'', AddTable ''B'' 2 ''R'', AddGuests 5 None,
        OptimizeSeating, RemoveTable ''A'', AddTable ''A'' 4 ''R'', AddGuests 3 None,
        OptimizeSeating, MarkGroupLeft 1]) \<and>
   listed_occupied (run [AddTable ''A'' 2 ''R'', AddTable ''B'' 2 ''R'', AddTable ''C'' 2 ''R'',
        AddGuests 5 None, OptimizeSeating]) \<and>
   admissible (run [AddTable ''A'' 2 ''R'', AddTable ''B'' 2 ''R'', AddTable ''C'' 2 ''R'',
        AddGuests 5 None, OptimizeSeating]) (MarkGroupLeft 1) \<and>
   listed_occupied (run [AddTable ''A'' 2 ''R'', AddTable ''B'' 2 ''R'', AddTable ''C'' 2 ''R'',
        AddGuests 5 None, OptimizeSeating, MarkGroupLeft 1]) \<and>
   admissible_from init [AddTable ''T2'' 4 ''GREENROOM'', AddGuests 2 None, SeatGuests 1 ''T2'',
        AddGuests 2 None, SeatGuests 2 ''T2'', MarkGroupLeft 1] \<and>
   listed_occupied (run [AddTable ''T2'' 4 ''GREENROOM'', AddGuests 2 None, SeatGuests 1 ''T2'',
        AddGuests 2 None, SeatGuests 2 ''T2'', MarkGroupLeft 1])"
proof -
  let ?good = "run [AddTable ''A'' 2 ''R'', AddTable ''B'' 2 ''R'', AddTable ''C'' 2 ''R'',
                    AddGuests 5 None, OptimizeSeating]"
  let ?bad = "run [AddTable ''A'' 4 ''R'', AddTable ''B'' 2 ''R'', AddGuests 5 None,
                   OptimizeSeating, RemoveTable ''A'', AddTable ''A'' 4 ''R'', AddGuests 3 None,
                   OptimizeSeating]"
  let ?calls = "[AddTable ''T2'' 4 ''GREENROOM'', AddGuests 2 None, SeatGuests 1 ''T2'',
                 AddGuests 2 None, SeatGuests 2 ''T2'', MarkGroupLeft 1]"
  have good_step: "run [AddTable ''A'' 2 ''R'', AddTable ''B'' 2 ''R'', AddTable ''C'' 2 ''R'',
        AddGuests 5 None, OptimizeSeating, MarkGroupLeft 1] = exec (MarkGroupLeft 1) ?good"
    by (simp add: run_def)
  have bad_step: "run [AddTable ''A'' 4 ''R'', AddTable ''B'' 2 ''R'', AddGuests 5 None,
        OptimizeSeating, RemoveTable ''A'', AddTable ''A'' 4 ''R'', AddGuests 3 None,
        OptimizeSeating, MarkGroupLeft 1] = exec (MarkGroupLeft 1) ?bad"
    by (simp add: run_def)
  have inv: "listed_occupied ?good"
    by code_simp
  have adm: "admissible ?good (MarkGroupLeft 1)"
    by code_simp
  have calls: "admissible_from init ?calls"
    by code_simp
  note all = flag_and_list_invariants
  have "occupied_listed (exec (MarkGroupLeft 1) ?bad)"
    unfolding bad_step [symmetric] using all [THEN conjunct1] .
  moreover have "listed_occupied (exec (MarkGroupLeft 1) ?good)"
    using all [of _ ?good "MarkGroupLeft 1"] inv adm by simp
  moreover have "listed_occupied (run ?calls)"
    using all [of ?calls] calls by simp
  ultimately show ?thesis
    unfolding good_step bad_step using inv adm calls by simp
qed

subsection \<open>Capacity\<close>

text \<open>
  Claim C1 says that the sizes of the groups listed under a table never add up to more
  than its capacity.  \<open>seat_guests\<close> sums the occupancy only when the occupied flag is
  set, \<open>find_best_table_for_group\<close> takes a table with a clear flag for empty, and
  breaking a combination clears the flag of every component without looking at the
  component's list.  The calls below are all
  open to a user of the application.  Table \<open>A\<close> of capacity 4 is removed and added
  again while the combination \<open>A+B\<close> stands; the optimizer seats group 2, of size 3, at
  it; the release of group 1 breaks the combination and clears the flag of \<open>A\<close>; the
  optimizer then seats group 3, of size 3, at \<open>A\<close> as well: six guests at a table of
  four.
\<close>

theorem capacity_exceeded_at_readded_component:
  "map_of (tables (run [AddTable ''A'' 4 ''R'', AddTable ''B'' 2 ''R'', AddGuests 5 None,
        OptimizeSeating, RemoveTable ''A'', AddTable ''A'' 4 ''R'', AddGuests 3 None,
        OptimizeSeating, MarkGroupLeft 1])) ''A''
     = Some \<lparr>capacity = 4, occupied = False, combined = False, component_tables = None,
             room = ''R''\<rparr> \<and>
   listed (assignments (run [AddTable ''A'' 4 ''R'', AddTable ''B'' 2 ''R'', AddGuests 5 None,
        OptimizeSeating, RemoveTable ''A'', AddTable ''A'' 4 ''R'', AddGuests 3 None,
        OptimizeSeating, MarkGroupLeft 1])) ''A'' = [2] \<and>
   map_of (tables (run [AddTable ''A'' 4 ''R'', AddTable ''B'' 2 ''R'', AddGuests 5 None,
        OptimizeSeating, RemoveTable ''A'', AddTable ''A'' 4 ''R'', AddGuests 3 None,
        OptimizeSeating, MarkGroupLeft 1, AddGuests 3 None, OptimizeSeating])) ''A''
     = Some \<lparr>capacity = 4, occupied = True, combined = False, component_tables = None,
             room = ''R''\<rparr> \<and>
   listed (assignments (run [AddTable ''A'' 4 ''R'', AddTable ''B'' 2 ''R'', AddGuests 5 None,
        OptimizeSeating, RemoveTable ''A'', AddTable ''A'' 4 ''R'', AddGuests 3 None,
        OptimizeSeating, MarkGroupLeft 1, AddGuests 3 None, OptimizeSeating])) ''A'' = [2, 3] \<and>
   current_occupancy (run [AddTable ''A'' 4 ''R'', AddTable ''B'' 2 ''R'', AddGuests 5 None,
        OptimizeSeating, RemoveTable ''A'', AddTable ''A'' 4 ''R'', AddGuests 3 None,
        OptimizeSeating, MarkGroupLeft 1, AddGuests 3 None, OptimizeSeating]) ''A'' = 6"
  by code_simp

end
